theory Spec2Isabelle
  imports Complex_Main "HOL-Library.Multiset"
begin

section \<open>Scranfilize: a shallow embedding of \<^verbatim>\<open>scranfilize.c\<close>\<close>

text \<open>
  The program reads a DIMACS CNF (\<^verbatim>\<open>parse\<close>), builds two rank maps and a flip set
  (\<^verbatim>\<open>rank\<close>, \<^verbatim>\<open>flip\<close>, called from \<^verbatim>\<open>scramble\<close>) and writes the scrambled CNF
  (\<^verbatim>\<open>print\<close>).

  Conventions of the embedding.
  \<^item> The input file is a \<open>string\<close>; \<^verbatim>\<open>getc\<close> returning \<^verbatim>\<open>EOF\<close> is \<open>None\<close>.
  \<^item> \<^verbatim>\<open>parse_error\<close> and \<^verbatim>\<open>die\<close> end the process: they are the \<open>Inl\<close> results.
  \<^item> Counts and array indices that the code keeps non-negative (\<^verbatim>\<open>max_var\<close>,
    \<^verbatim>\<open>num_clauses\<close>, \<^verbatim>\<open>lineno\<close>, loop counters) are \<open>nat\<close>; the overflow guards
    against \<^verbatim>\<open>INT_MAX\<close> that the parser performs are written out. Literals are \<open>int\<close>.
  \<^item> Heap allocation is assumed to succeed (the \<^verbatim>\<open>out-of-memory\<close> exits are not
    modelled). The code that opens the files is left out, and the comment lines that
    \<^verbatim>\<open>banner\<close> writes are a parameter of \<^verbatim>\<open>print\<close>.
  \<^item> \<^verbatim>\<open>lineno\<close> is not bounded: an input of more than \<^verbatim>\<open>INT_MAX\<close> lines is not modelled.
\<close>

subsection \<open>Characters and \<^verbatim>\<open>printf\<close> formatting\<close>

definition newline :: char where
  "newline = CHR 0x0A"

definition INT_MAX :: nat where
  "INT_MAX = 2147483647"

definition code :: "char \<Rightarrow> nat" where
  "code c = of_char c"

text \<open>\<^verbatim>\<open>isdigit\<close> and \<^verbatim>\<open>isprint\<close> of the C locale; both are false on \<^verbatim>\<open>EOF\<close>.\<close>

definition isdigit :: "char option \<Rightarrow> bool" where
  "isdigit ch = (case ch of None \<Rightarrow> False | Some c \<Rightarrow> 48 \<le> code c \<and> code c \<le> 57)"

definition isprint :: "char option \<Rightarrow> bool" where
  "isprint ch = (case ch of None \<Rightarrow> False | Some c \<Rightarrow> 32 \<le> code c \<and> code c \<le> 126)"

text \<open>\<^verbatim>\<open>ch - '0'\<close> for a character that \<^verbatim>\<open>isdigit\<close> accepted.\<close>

definition digit_value :: "char option \<Rightarrow> nat" where
  "digit_value ch = (case ch of None \<Rightarrow> 0 | Some c \<Rightarrow> code c - 48)"

definition space :: "char option \<Rightarrow> bool" where
  "space ch = (ch = Some CHR '' '' \<or> ch = Some CHR 0x09 \<or> ch = Some CHR 0x0D \<or> ch = Some newline)"

text \<open>The conversion \<^verbatim>\<open>%d\<close> of \<^verbatim>\<open>printf\<close>.\<close>

definition digit_char :: "nat \<Rightarrow> char" where
  "digit_char d = ''0123456789'' ! d"

fun decimal :: "nat \<Rightarrow> string" where
  "decimal n = (if n < 10 then [digit_char n] else decimal (n div 10) @ [digit_char (n mod 10)])"

declare decimal.simps [simp del]

definition printf_d :: "int \<Rightarrow> string" where
  "printf_d i = (if i < 0 then CHR ''-'' # decimal (nat (- i)) else decimal (nat i))"

subsection \<open>The CNF and the parser\<close>

text \<open>
  The globals \<^verbatim>\<open>max_var\<close>, \<^verbatim>\<open>num_clauses\<close> and \<^verbatim>\<open>clauses\<close>. Each entry of \<open>clauses\<close> is
  the array the parser allocated for that clause: its literals followed by the sentinel
  \<open>0\<close> that the parser writes at \<^verbatim>\<open>clause[num_literals]\<close>.
\<close>

record cnf =
  max_var :: nat
  num_clauses :: nat
  clauses :: "int list list"

text \<open>
  The ways a run ends early: \<^verbatim>\<open>parse_error (path, lineno, msg, ...)\<close> with the line number
  and the formatted message, a failed \<^verbatim>\<open>assert\<close> (the asserted expression), and a read
  outside the bounds of an array (undefined behaviour in C).
\<close>

datatype error = ParseError nat string | Assertion string | OutOfBounds

text \<open>\<^verbatim>\<open>next_char\<close>: one \<^verbatim>\<open>getc\<close>; a newline read increments \<^verbatim>\<open>lineno\<close>.\<close>

definition next_char :: "string \<Rightarrow> nat \<Rightarrow> char option \<times> string \<times> nat" where
  "next_char file lineno =
     (case file of
        [] \<Rightarrow> (None, [], lineno)
      | c # cs \<Rightarrow> (Some c, cs, if c = newline then lineno + 1 else lineno))"

text \<open>
  The body of the first loop after a \<^verbatim>\<open>c\<close>:
  \<^verbatim>\<open>while ((ch = next ()) != '\n') if (ch == EOF) perr (...)\<close>.
\<close>

fun header_comment :: "string \<Rightarrow> nat \<Rightarrow> error + string \<times> nat" where
  "header_comment [] lineno =
     Inl (ParseError lineno ''unexpected end-of-file in header comment'')"
| "header_comment (c # cs) lineno =
     (if c = newline then Inr (cs, lineno + 1) else header_comment cs lineno)"

lemma header_comment_length:
  "header_comment file lineno = Inr (file', lineno') \<Longrightarrow> length file' < length file"
proof (induction "file" arbitrary: lineno)
  case Nil
  then show ?case by simp
next
  case (Cons c cs)
  show ?case
  proof (cases "c = newline")
    case True
    with Cons.prems show ?thesis by auto
  next
    case False
    with Cons.prems have "header_comment cs lineno = Inr (file', lineno')" by simp
    from Cons.IH [OF this] show ?thesis by simp
  qed
qed

text \<open>
  The first \<^verbatim>\<open>for (;;)\<close> loop of \<^verbatim>\<open>parse\<close>: comment lines up to the \<^verbatim>\<open>p\<close> of the header.
  The branch \<^verbatim>\<open>if (ch == EOF) perr ("unexpected end-of-file")\<close> after the comment test
  is unreachable and not repeated here.
\<close>

function header_start :: "string \<Rightarrow> nat \<Rightarrow> error + string \<times> nat" where
  "header_start file lineno =
     (case next_char file lineno of (ch, file', lineno') \<Rightarrow>
        (case ch of
           None \<Rightarrow> Inl (ParseError lineno' ''unexpected end-of-file before header'')
         | Some c \<Rightarrow>
             if c = CHR ''p'' then Inr (file', lineno')
             else if c = CHR ''c'' then
               (case header_comment file' lineno' of
                  Inl e \<Rightarrow> Inl e
                | Inr (file'', lineno'') \<Rightarrow> header_start file'' lineno'')
             else if isprint ch then
               Inl (ParseError lineno' (''unexpected character '' @ [CHR 0x27, c, CHR 0x27]))
             else
               Inl (ParseError lineno'
                 (''unexpected character (code '' @ [CHR 0x27] @ decimal (code c) @ [CHR 0x27] @ '')''))))"
  by pat_completeness auto
termination
proof (relation "measure (\<lambda>(file, lineno). length file)", goal_cases)
  case 1
  show ?case by simp
next
  case 2
  then show ?case
    by (auto simp: next_char_def split: list.splits dest!: header_comment_length)
qed

declare header_start.simps [simp del]

text \<open>
  The chain \<^verbatim>\<open>next () != ' ' || next () != 'c' || ...\<close>: the characters are read one by
  one and the first mismatch stops the reading.
\<close>

fun magic :: "string \<Rightarrow> string \<Rightarrow> nat \<Rightarrow> error + string \<times> nat" where
  "magic [] file lineno = Inr (file, lineno)"
| "magic (m # ms) file lineno =
     (case next_char file lineno of (ch, file', lineno') \<Rightarrow>
        if ch \<noteq> Some m then Inl (ParseError lineno' ''invalid DIMACS header'')
        else magic ms file' lineno')"

text \<open>
  The loop \<^verbatim>\<open>while (isdigit (ch = next ())) { ... }\<close> that the source writes three times
  (for \<^verbatim>\<open>max_var\<close>, \<^verbatim>\<open>specified_clauses\<close> and \<^verbatim>\<open>idx\<close>), with the two messages of
  its overflow guards as parameters. It returns the number and the first character that is
  not a digit.
\<close>

fun digits :: "string \<Rightarrow> string \<Rightarrow> nat \<Rightarrow> string \<Rightarrow> nat \<Rightarrow> error + nat \<times> char option \<times> string \<times> nat" where
  "digits way_too_large too_large v [] lineno = Inr (v, None, [], lineno)"
| "digits way_too_large too_large v (c # cs) lineno =
     (let lineno' = (if c = newline then lineno + 1 else lineno) in
      if isdigit (Some c) then
        if INT_MAX div 10 < v then Inl (ParseError lineno' way_too_large)
        else
          let v10 = v * 10; digit = digit_value (Some c) in
          if INT_MAX - digit < v10 then Inl (ParseError lineno' too_large)
          else digits way_too_large too_large (v10 + digit) cs lineno'
      else Inr (v, Some c, cs, lineno'))"

text \<open>\<^verbatim>\<open>while (ch != '\n') { if (!space (ch)) perr (...); ch = next (); }\<close>\<close>

function header_end :: "char option \<Rightarrow> string \<Rightarrow> nat \<Rightarrow> error + string \<times> nat" where
  "header_end ch file lineno =
     (if ch = Some newline then Inr (file, lineno)
      else if \<not> space ch then Inl (ParseError lineno ''expected white space before new line'')
      else (case next_char file lineno of (ch', file', lineno') \<Rightarrow> header_end ch' file' lineno'))"
  by pat_completeness auto
termination
  by (relation "measure (\<lambda>(ch, file, lineno). length file + (if ch = None then 0 else 1))")
     (auto simp: next_char_def space_def split: list.splits)

declare header_end.simps [simp del]

text \<open>The header line after its \<^verbatim>\<open>p\<close>: it yields \<^verbatim>\<open>max_var\<close> and \<^verbatim>\<open>specified_clauses\<close>.\<close>

definition header :: "string \<Rightarrow> nat \<Rightarrow> error + nat \<times> nat \<times> string \<times> nat" where
  "header file0 lineno0 =
     (case magic '' cnf '' file0 lineno0 of
        Inl e \<Rightarrow> Inl e
      | Inr (file1, lineno1) \<Rightarrow>
     (case next_char file1 lineno1 of (ch2, file2, lineno2) \<Rightarrow>
        if \<not> isdigit ch2 then
          Inl (ParseError lineno2 (''expected digit after '' @ [CHR 0x27] @ ''p cnf '' @ [CHR 0x27]))
        else
     (case digits ''variable number way too large'' ''variable number too large''
             (digit_value ch2) file2 lineno2 of
        Inl e \<Rightarrow> Inl e
      | Inr (mv, ch3, file3, lineno3) \<Rightarrow>
        if ch3 \<noteq> Some CHR '' '' then
          Inl (ParseError lineno3 ''expected space after variable number'')
        else
     (case next_char file3 lineno3 of (ch4, file4, lineno4) \<Rightarrow>
        if \<not> isdigit ch4 then
          Inl (ParseError lineno4
            (''expected digit after '' @ [CHR 0x27] @ ''p cnf '' @ decimal mv @ [CHR 0x27]))
        else
     (case digits ''clause number way too large'' ''clause number too large''
             (digit_value ch4) file4 lineno4 of
        Inl e \<Rightarrow> Inl e
      | Inr (specified_clauses, ch5, file5, lineno5) \<Rightarrow>
     (case header_end ch5 file5 lineno5 of
        Inl e \<Rightarrow> Inl e
      | Inr (file6, lineno6) \<Rightarrow> Inr (mv, specified_clauses, file6, lineno6)))))))"

text \<open>
  A comment among the clauses: \<^verbatim>\<open>while ((ch = next ()) != '\n' && ch != EOF) ;\<close>.
  It returns the character that ended the loop.
\<close>

fun comment :: "string \<Rightarrow> nat \<Rightarrow> char option \<times> string \<times> nat" where
  "comment [] lineno = (None, [], lineno)"
| "comment (c # cs) lineno =
     (if c = newline then (Some c, cs, lineno + 1) else comment cs lineno)"

text \<open>
  One literal: the last branch of the clause loop, from the test for \<^verbatim>\<open>-\<close> to
  \<^verbatim>\<open>int lit = sign * idx\<close>. \<open>ch\<close> is neither white space, nor \<^verbatim>\<open>EOF\<close>, nor \<^verbatim>\<open>c\<close>.
\<close>

definition literal_sign ::
  "char option \<Rightarrow> string \<Rightarrow> nat \<Rightarrow> error + int \<times> char option \<times> string \<times> nat" where
  "literal_sign ch file lineno =
     (if ch = Some CHR ''-'' then
        (case next_char file lineno of (ch1, file1, lineno1) \<Rightarrow>
           if \<not> isdigit ch1 then
             Inl (ParseError lineno1 (''expected digit after '' @ [CHR 0x27] @ ''-'' @ [CHR 0x27]))
           else if ch1 = Some CHR ''0'' then
             Inl (ParseError lineno1
               (''expected non-zer digit after '' @ [CHR 0x27] @ ''-'' @ [CHR 0x27]))
           else Inr (- 1, ch1, file1, lineno1))
      else if \<not> isdigit ch then
        Inl (ParseError lineno (''expected digit or '' @ [CHR 0x27] @ ''-'' @ [CHR 0x27]))
      else Inr (1, ch, file, lineno))"

definition literal ::
  "nat \<Rightarrow> nat \<Rightarrow> nat \<Rightarrow> char option \<Rightarrow> string \<Rightarrow> nat \<Rightarrow> error + int \<times> char option \<times> string \<times> nat" where
  "literal mv specified_clauses nc ch file lineno =
     (case literal_sign ch file lineno of
        Inl e \<Rightarrow> Inl e
      | Inr (sign, ch1, file1, lineno1) \<Rightarrow>
     (case digits ''variable way too large'' ''variable too large'' (digit_value ch1) file1 lineno1 of
        Inl e \<Rightarrow> Inl e
      | Inr (idx, ch2, file2, lineno2) \<Rightarrow>
        if idx > mv then Inl (ParseError lineno2 ''maximum variable index exceeded'')
        else if \<not> space ch2 \<and> ch2 \<noteq> Some CHR ''c'' \<and> ch2 \<noteq> None then
          (if isprint ch2 then
             Inl (ParseError lineno2
               (''unexpected character '' @ [CHR 0x27, the ch2, CHR 0x27] @ '' after literal''))
           else
             Inl (ParseError lineno2
               (''unexpected character after literal (code '' @ [CHR 0x27] @
                decimal (code (the ch2)) @ [CHR 0x27] @ '')'')))
        else if nc = specified_clauses then Inl (ParseError lineno2 ''too many clauses'')
        else Inr (sign * int idx, ch2, file2, lineno2)))"

lemma digits_length:
  "digits w t v file lineno = Inr (v', ch', file', lineno') \<Longrightarrow>
     length file' + (if ch' = None then 0 else 1) \<le> length file"
proof (induction "file" arbitrary: v lineno)
  case Nil
  then show ?case by simp
next
  case (Cons c cs)
  show ?case
  proof (cases "isdigit (Some c)")
    case True
    with Cons.prems obtain l where
      "digits w t (v * 10 + digit_value (Some c)) cs l = Inr (v', ch', file', lineno')"
      by (auto simp: Let_def split: if_splits)
    from Cons.IH [OF this] show ?thesis by simp
  next
    case False
    with Cons.prems show ?thesis by (auto simp: Let_def)
  qed
qed

lemma comment_length:
  "comment file lineno = (ch', file', lineno') \<Longrightarrow>
     length file' + (if ch' = None then 0 else 1) \<le> length file"
proof (induction "file" arbitrary: lineno)
  case Nil
  then show ?case by simp
next
  case (Cons c cs)
  show ?case
  proof (cases "c = newline")
    case True
    with Cons.prems show ?thesis by auto
  next
    case False
    with Cons.prems have "comment cs lineno = (ch', file', lineno')" by simp
    from Cons.IH [OF this] show ?thesis by simp
  qed
qed

lemma literal_sign_length:
  "literal_sign ch file lineno = Inr (sign, ch1, file1, lineno1) \<Longrightarrow> length file1 \<le> length file"
  by (auto simp: literal_sign_def next_char_def split: if_splits list.splits)

lemma literal_length:
  assumes "literal mv specified_clauses nc ch file lineno = Inr (lit, ch', file', lineno')"
  shows "length file' + (if ch' = None then 0 else 1) \<le> length file"
proof -
  from assms obtain sign ch1 file1 lineno1 where
    s: "literal_sign ch file lineno = Inr (sign, ch1, file1, lineno1)"
    by (auto simp: literal_def split: sum.splits)
  with assms obtain idx where
    d: "digits ''variable way too large'' ''variable too large'' (digit_value ch1) file1 lineno1 =
          Inr (idx, ch', file', lineno')"
    by (auto simp: literal_def split: sum.splits if_splits)
  from digits_length [OF d] literal_sign_length [OF s] show ?thesis by simp
qed

text \<open>
  The clause loop of \<^verbatim>\<open>parse\<close>. \<open>literals\<close> is the literal stack (\<^verbatim>\<open>num_literals\<close> is
  its length); \<open>num_clauses\<close> and \<open>clauses\<close> are the globals being filled. On the
  terminating \<open>0\<close> the stack is copied into a new array, the sentinel \<open>0\<close> is written
  behind it, and the array is stored at \<^verbatim>\<open>clauses[num_clauses++]\<close>.
\<close>

function body ::
  "nat \<Rightarrow> nat \<Rightarrow> char option \<Rightarrow> string \<Rightarrow> nat \<Rightarrow> int list \<Rightarrow> nat \<Rightarrow> int list list \<Rightarrow>
     error + nat \<times> int list list" where
  "body mv specified_clauses ch file lineno literals nc cls =
     (if space ch then
        (case next_char file lineno of (ch', file', lineno') \<Rightarrow>
           body mv specified_clauses ch' file' lineno' literals nc cls)
      else if ch = None then
        (if literals \<noteq> [] then Inl (ParseError lineno ''terminating zero missing'')
         else if nc < specified_clauses then
           Inl (ParseError lineno
             (decimal nc @ '' clause'' @
              (if nc + 1 = specified_clauses then '''' else ''s'') @ '' missing''))
         else Inr (nc, cls))
      else if ch = Some CHR ''c'' then
        (case comment file lineno of (ch', file', lineno') \<Rightarrow>
           body mv specified_clauses ch' file' lineno' literals nc cls)
      else
        (case literal mv specified_clauses nc ch file lineno of
           Inl e \<Rightarrow> Inl e
         | Inr (lit, ch', file', lineno') \<Rightarrow>
             if lit \<noteq> 0 then
               body mv specified_clauses ch' file' lineno' (literals @ [lit]) nc cls
             else
               body mv specified_clauses ch' file' lineno' [] (nc + 1)
                 (cls @ [literals @ [0]])))"
  by pat_completeness auto
termination
proof (relation "measure (\<lambda>(mv, specified_clauses, ch, file, lineno, literals, nc, cls).
         length file + (if ch = None then 0 else 1))", goal_cases)
  case 1
  show ?case by simp
next
  case 2
  then show ?case by (auto simp: next_char_def space_def split: list.splits)
next
  case (3 mv specified_clauses ch inp lineno literals nc cls x y ch' z)
  then have "comment inp lineno = (x, ch', z)" by simp
  from comment_length [OF this] 3 show ?case by auto
next
  case 4
  then show ?case by (auto dest!: literal_length)
next
  case 5
  then show ?case by (auto dest!: literal_length)
qed

declare body.simps [simp del]

text \<open>\<^verbatim>\<open>parse\<close>, on the bytes of the opened file. \<^verbatim>\<open>lineno\<close> starts at 1, \<^verbatim>\<open>num_clauses\<close> at 0.\<close>

definition parse :: "string \<Rightarrow> error + cnf" where
  "parse input =
     (case header_start input 1 of
        Inl e \<Rightarrow> Inl e
      | Inr (file1, lineno1) \<Rightarrow>
     (case header file1 lineno1 of
        Inl e \<Rightarrow> Inl e
      | Inr (mv, specified_clauses, file2, lineno2) \<Rightarrow>
     (case next_char file2 lineno2 of (ch, file3, lineno3) \<Rightarrow>
     (case body mv specified_clauses ch file3 lineno3 [] 0 [] of
        Inl e \<Rightarrow> Inl e
      | Inr (nc, cls) \<Rightarrow> Inr \<lparr>max_var = mv, num_clauses = nc, clauses = cls\<rparr>))))"

subsection \<open>The options and the random number generator\<close>

text \<open>
  The option variables as \<^verbatim>\<open>init\<close> leaves them (the seed is non-negative and the
  negative defaults of the three \<^verbatim>\<open>double\<close> options are replaced). A \<^verbatim>\<open>double\<close> is
  modelled by the real number it denotes; the rounding of the products and sums that
  \<^verbatim>\<open>rank\<close> computes is not modelled.
\<close>

record options =
  seed :: int
  permute_variables :: bool
  permute_clauses :: bool
  reverse_variables :: bool
  reverse_clauses :: bool
  literal_flip_probability :: real
  variable_move_window :: real
  clause_move_window :: real
  absolute_windows :: bool

text \<open>
  \<^verbatim>\<open>srand48\<close> and \<^verbatim>\<open>drand48\<close> belong to the C library. They are modelled as POSIX
  specifies them: the state is a 48-bit integer \<open>X\<close>; \<^verbatim>\<open>srand48 (seedval)\<close> sets its high
  32 bits to the low 32 bits of \<open>seedval\<close> and its low 16 bits to \<^verbatim>\<open>0x330E\<close>;
  \<^verbatim>\<open>drand48\<close> steps \<open>X\<close> to \<open>(0x5DEECE66D * X + 0xB) mod 2 ^ 48\<close> and returns
  \<open>X / 2 ^ 48\<close>. The generator is global state in C; here it is passed and returned.
\<close>

type_synonym rng = nat

definition srand48 :: "int \<Rightarrow> rng" where
  "srand48 seedval = nat (seedval mod 2 ^ 32) * 2 ^ 16 + 0x330E"

definition drand48 :: "rng \<Rightarrow> real \<times> rng" where
  "drand48 X = (let X' = (0x5DEECE66D * X + 0xB) mod 2 ^ 48 in (real X' / 2 ^ 48, X'))"

subsection \<open>\<^verbatim>\<open>rank\<close>\<close>

text \<open>\<^verbatim>\<open>typedef struct Map { int src; double dst; } Map;\<close> as a pair \<open>(src, dst)\<close>.\<close>

type_synonym Map = "nat \<times> real"

fun cmp_rank :: "Map \<Rightarrow> Map \<Rightarrow> int" where
  "cmp_rank (r_src, r_dst) (s_src, s_dst) =
     (if r_dst < s_dst then - 1
      else if r_dst > s_dst then 1
      else if r_src < s_src then - 1
      else if r_src > s_src then 1
      else 0)"

text \<open>
  \<^verbatim>\<open>qsort\<close> belongs to the C library: it leaves the elements of the array in an order
  that ascends along the comparison function. It is modelled by insertion sort.
\<close>

fun qsort_insert :: "('a \<Rightarrow> 'a \<Rightarrow> int) \<Rightarrow> 'a \<Rightarrow> 'a list \<Rightarrow> 'a list" where
  "qsort_insert cmp x [] = [x]"
| "qsort_insert cmp x (y # ys) =
     (if cmp x y \<le> 0 then x # y # ys else y # qsort_insert cmp x ys)"

definition qsort :: "('a \<Rightarrow> 'a \<Rightarrow> int) \<Rightarrow> 'a list \<Rightarrow> 'a list" where
  "qsort cmp xs = foldr (qsort_insert cmp) xs []"

text \<open>
  The first loop of \<^verbatim>\<open>rank\<close>, over the indices \<open>i\<close> still to fill:
  \<^verbatim>\<open>m->src = i\<close> and \<^verbatim>\<open>m->dst\<close> from one \<^verbatim>\<open>drand48 ()\<close>.
\<close>

fun fill_ranks :: "bool \<Rightarrow> nat \<Rightarrow> bool \<Rightarrow> real \<Rightarrow> nat list \<Rightarrow> rng \<Rightarrow> Map list \<times> rng" where
  "fill_ranks absolute n permute width [] X = ([], X)"
| "fill_ranks absolute n permute width (i # is) X =
     (case drand48 X of (u, X') \<Rightarrow>
        let dst = (if permute then u * real n
                   else let tmp = u * width;
                            tmp = (if \<not> absolute then tmp * real n else tmp)
                        in real i + tmp)
        in (case fill_ranks absolute n permute width is X' of
              (ranks, X'') \<Rightarrow> ((i, dst) # ranks, X'')))"

text \<open>
  \<^verbatim>\<open>rank (n, permute, width)\<close>. The generator state \<open>X\<close> at the call is overwritten by
  \<^verbatim>\<open>srand48 (seed)\<close>; the state after the call is returned with the map.
\<close>

definition rank :: "options \<Rightarrow> nat \<Rightarrow> bool \<Rightarrow> real \<Rightarrow> rng \<Rightarrow> nat list \<times> rng" where
  "rank opts n permute width X =
     (let X0 = srand48 (seed opts) in
      case fill_ranks (absolute_windows opts) n permute width [0..<n] X0 of
        (ranks, X1) \<Rightarrow> (map fst (qsort cmp_rank ranks), X1))"

subsection \<open>\<^verbatim>\<open>flip\<close> and \<^verbatim>\<open>scramble\<close>\<close>

text \<open>The loop \<^verbatim>\<open>res[i] = (drand48 () <= literal_flip_probability)\<close>.\<close>

fun fill_flipped :: "real \<Rightarrow> nat list \<Rightarrow> rng \<Rightarrow> bool list \<times> rng" where
  "fill_flipped p [] X = ([], X)"
| "fill_flipped p (i # is) X =
     (case drand48 X of (u, X') \<Rightarrow>
        (case fill_flipped p is X' of (res, X'') \<Rightarrow> ((u \<le> p) # res, X'')))"

text \<open>\<^verbatim>\<open>flip ()\<close>, with \<^verbatim>\<open>max_var\<close> as the parameter \<open>mv\<close>.\<close>

definition flip :: "options \<Rightarrow> nat \<Rightarrow> rng \<Rightarrow> bool list \<times> rng" where
  "flip opts mv X =
     (let X0 = srand48 (seed opts) in
      if literal_flip_probability opts \<le> 0 then (replicate mv False, X0)
      else if literal_flip_probability opts \<ge> 1 then (replicate mv True, X0)
      else
        let X1 = srand48 (seed opts) in
        fill_flipped (literal_flip_probability opts) [0..<mv] X1)"

text \<open>The globals \<^verbatim>\<open>flipped\<close>, \<^verbatim>\<open>clause_map\<close> and \<^verbatim>\<open>variable_map\<close>.\<close>

record maps =
  flipped :: "bool list"
  clause_map :: "nat list"
  variable_map :: "nat list"

definition scramble :: "options \<Rightarrow> cnf \<Rightarrow> rng \<Rightarrow> maps \<times> rng" where
  "scramble opts f X0 =
     (case rank opts (max_var f) (permute_variables opts) (variable_move_window opts) X0 of
        (vm, X1) \<Rightarrow>
     (case rank opts (num_clauses f) (permute_clauses opts) (clause_move_window opts) X1 of
        (cm, X2) \<Rightarrow>
     (case flip opts (max_var f) X2 of
        (fl, X3) \<Rightarrow> (\<lparr>flipped = fl, clause_map = cm, variable_map = vm\<rparr>, X3))))"

subsection \<open>\<^verbatim>\<open>print\<close>\<close>

text \<open>
  The value of an \<^verbatim>\<open>int\<close> expression whose mathematical value is \<open>x\<close>, in 32-bit two's
  complement. The only expression of \<^verbatim>\<open>print\<close> that can leave the range of \<^verbatim>\<open>int\<close> on
  a parsed CNF is \<^verbatim>\<open>max_var + 1\<close> (when \<^verbatim>\<open>max_var\<close> is \<^verbatim>\<open>INT_MAX\<close>), so the wrap-around
  is written out there.
\<close>

definition wrap :: "int \<Rightarrow> int" where
  "wrap x = (x + 2 ^ 31) mod 2 ^ 32 - 2 ^ 31"

text \<open>
  The body of the inner loop of \<^verbatim>\<open>print\<close> for the literal \<open>src\<close>: the value \<open>dst\<close>
  that \<^verbatim>\<open>fprintf (file, "%d ", dst)\<close> writes.
\<close>

definition print_literal :: "options \<Rightarrow> nat \<Rightarrow> maps \<Rightarrow> int \<Rightarrow> error + int" where
  "print_literal opts mv m src =
     (let idx = \<bar>src\<bar>;
          idx = (if reverse_variables opts then wrap (wrap (int mv + 1) - idx) else idx)
      in
      if \<not> 1 \<le> idx then Inl (Assertion ''1 <= idx'')
      else if \<not> idx \<le> int mv then Inl (Assertion ''idx <= max_var'')
      else if \<not> nat (idx - 1) < length (variable_map m) then Inl OutOfBounds
      else
        let dst = int (variable_map m ! nat (idx - 1)) + 1 in
        if \<not> 1 \<le> dst then Inl (Assertion ''1 <= dst'')
        else if \<not> dst \<le> int mv then Inl (Assertion ''dst <= max_var'')
        else
          let dst = (if src < 0 then - dst else dst) in
          if \<not> nat (idx - 1) < length (flipped m) then Inl OutOfBounds
          else Inr (if flipped m ! nat (idx - 1) then - dst else dst))"

text \<open>
  The inner loop \<^verbatim>\<open>for (const int * p = clauses[j]; *p; p++)\<close> over the array of a
  clause: it stops at the first \<open>0\<close>, and runs off the array when there is none.
\<close>

fun print_literals :: "options \<Rightarrow> nat \<Rightarrow> maps \<Rightarrow> int list \<Rightarrow> error + int list" where
  "print_literals opts mv m [] = Inl OutOfBounds"
| "print_literals opts mv m (src # p) =
     (if src = 0 then Inr []
      else
        (case print_literal opts mv m src of
           Inl e \<Rightarrow> Inl e
         | Inr dst \<Rightarrow>
             (case print_literals opts mv m p of
                Inl e \<Rightarrow> Inl e
              | Inr dsts \<Rightarrow> Inr (dst # dsts))))"

text \<open>The index \<open>j\<close> of the clause written at output position \<open>i\<close>.\<close>

definition source_clause :: "options \<Rightarrow> cnf \<Rightarrow> maps \<Rightarrow> nat \<Rightarrow> error + nat" where
  "source_clause opts f m i =
     (if \<not> i < length (clause_map m) then Inl OutOfBounds
      else
        let j = int (clause_map m ! i);
            j = (if reverse_clauses opts then int (num_clauses f) - 1 - j else j)
        in
        if \<not> 0 \<le> j then Inl (Assertion ''0 <= j'')
        else if \<not> j < int (num_clauses f) then Inl (Assertion ''j < num_clauses'')
        else if \<not> nat j < length (clauses f) then Inl OutOfBounds
        else Inr (nat j))"

text \<open>
  The outer loop of \<^verbatim>\<open>print\<close> over the output positions \<open>i\<close> still to write: for each
  line, the values written before its closing \<^verbatim>\<open>0\<close>.
\<close>

fun print_clauses :: "options \<Rightarrow> cnf \<Rightarrow> maps \<Rightarrow> nat list \<Rightarrow> error + int list list" where
  "print_clauses opts f m [] = Inr []"
| "print_clauses opts f m (i # is) =
     (case source_clause opts f m i of
        Inl e \<Rightarrow> Inl e
      | Inr j \<Rightarrow>
          (case print_literals opts (max_var f) m (clauses f ! j) of
             Inl e \<Rightarrow> Inl e
           | Inr dsts \<Rightarrow>
               (case print_clauses opts f m is of
                  Inl e \<Rightarrow> Inl e
                | Inr lines \<Rightarrow> Inr (dsts # lines))))"

text \<open>One line of the output: \<^verbatim>\<open>"%d "\<close> for each value, then \<^verbatim>\<open>"0\n"\<close>.\<close>

definition line_text :: "int list \<Rightarrow> string" where
  "line_text dsts = concat (map (\<lambda>dst. printf_d dst @ '' '') dsts) @ ''0'' @ [newline]"

text \<open>\<^verbatim>\<open>fprintf (file, "p cnf %d %d\n", max_var, num_clauses)\<close>\<close>

definition header_text :: "nat \<Rightarrow> nat \<Rightarrow> string" where
  "header_text mv nc = ''p cnf '' @ decimal mv @ '' '' @ decimal nc @ [newline]"

text \<open>
  \<^verbatim>\<open>print\<close>: the bytes written to the output. The comment lines of \<^verbatim>\<open>banner\<close> (they
  depend on the options and on the constants of \<^verbatim>\<open>config.h\<close> only) are the parameter
  \<open>banner\<close>.
\<close>

definition print :: "string \<Rightarrow> options \<Rightarrow> cnf \<Rightarrow> maps \<Rightarrow> error + string" where
  "print banner opts f m =
     (case print_clauses opts f m [0..<num_clauses f] of
        Inl e \<Rightarrow> Inl e
      | Inr lines \<Rightarrow>
          Inr (banner @ header_text (max_var f) (num_clauses f) @ concat (map line_text lines)))"

text \<open>
  \<^verbatim>\<open>main\<close> after \<^verbatim>\<open>init\<close>: \<^verbatim>\<open>parse\<close>, \<^verbatim>\<open>scramble\<close>, \<^verbatim>\<open>print\<close>. \<open>X\<close> is the state of the
  generator when \<^verbatim>\<open>scramble\<close> is called.
\<close>

definition main :: "(options \<Rightarrow> string) \<Rightarrow> options \<Rightarrow> string \<Rightarrow> rng \<Rightarrow> error + string" where
  "main banner opts input X =
     (case parse input of
        Inl e \<Rightarrow> Inl e
      | Inr f \<Rightarrow> print (banner opts) opts f (fst (scramble opts f X)))"

subsection \<open>Notions used to state the properties\<close>

text \<open>
  What \<^verbatim>\<open>parse\<close> guarantees about a literal, about the array of a clause (its literals,
  then the sentinel) and about the CNF it returns.
\<close>

definition valid_literal :: "nat \<Rightarrow> int \<Rightarrow> bool" where
  "valid_literal mv lit = (lit \<noteq> 0 \<and> \<bar>lit\<bar> \<le> int mv)"

definition valid_clause :: "nat \<Rightarrow> int list \<Rightarrow> bool" where
  "valid_clause mv c = (c \<noteq> [] \<and> last c = 0 \<and> list_all (valid_literal mv) (butlast c))"

definition valid_cnf :: "cnf \<Rightarrow> bool" where
  "valid_cnf f =
     (max_var f \<le> INT_MAX \<and> num_clauses f = length (clauses f) \<and>
      list_all (valid_clause (max_var f)) (clauses f))"

text \<open>
  The literals of the clause section in the order in which the clause loop of \<^verbatim>\<open>parse\<close>
  reads them: the successive values of \<^verbatim>\<open>lit\<close>, the terminating zeros included. The
  function walks the input as \<open>body\<close> does and only records \<^verbatim>\<open>lit\<close>.
\<close>

function literals_read :: "nat \<Rightarrow> nat \<Rightarrow> char option \<Rightarrow> string \<Rightarrow> nat \<Rightarrow> nat \<Rightarrow> int list" where
  "literals_read mv specified_clauses ch file lineno nc =
     (if space ch then
        (case next_char file lineno of (ch', file', lineno') \<Rightarrow>
           literals_read mv specified_clauses ch' file' lineno' nc)
      else if ch = None then []
      else if ch = Some CHR ''c'' then
        (case comment file lineno of (ch', file', lineno') \<Rightarrow>
           literals_read mv specified_clauses ch' file' lineno' nc)
      else
        (case literal mv specified_clauses nc ch file lineno of
           Inl e \<Rightarrow> []
         | Inr (lit, ch', file', lineno') \<Rightarrow>
             lit # literals_read mv specified_clauses ch' file' lineno'
                     (if lit \<noteq> 0 then nc else nc + 1)))"
  by pat_completeness auto
termination
proof (relation "measure (\<lambda>(mv, specified_clauses, ch, file, lineno, nc).
         length file + (if ch = None then 0 else 1))", goal_cases)
  case 1
  show ?case by simp
next
  case 2
  then show ?case by (auto simp: next_char_def space_def split: list.splits)
next
  case (3 mv specified_clauses ch inp lineno nc x y ch' z)
  then have "comment inp lineno = (x, ch', z)" by simp
  from comment_length [OF this] 3 show ?case by auto
next
  case 4
  then show ?case by (auto dest!: literal_length)
qed

declare literals_read.simps [simp del]

text \<open>The literals of the clause section of a whole input (empty when the header is rejected).\<close>

definition clause_literals :: "string \<Rightarrow> int list" where
  "clause_literals input =
     (case header_start input 1 of
        Inl e \<Rightarrow> []
      | Inr (file1, lineno1) \<Rightarrow>
     (case header file1 lineno1 of
        Inl e \<Rightarrow> []
      | Inr (mv, specified_clauses, file2, lineno2) \<Rightarrow>
     (case next_char file2 lineno2 of (ch, file3, lineno3) \<Rightarrow>
        literals_read mv specified_clauses ch file3 lineno3 0)))"

text \<open>
  Undoing \<^verbatim>\<open>print\<close> on one written value \<open>dst\<close>: the position of \<open>|dst| - 1\<close> in the
  variable map gives back the index that was looked up, the flip set at that index gives
  back the sign, and the reversal of the index is undone last.
\<close>

definition position :: "nat list \<Rightarrow> nat \<Rightarrow> nat" where
  "position xs v = length (takeWhile (\<lambda>x. x \<noteq> v) xs)"

definition undo_literal :: "options \<Rightarrow> nat \<Rightarrow> maps \<Rightarrow> int \<Rightarrow> int" where
  "undo_literal opts mv m dst =
     (let k = position (variable_map m) (nat (\<bar>dst\<bar> - 1));
          negative = ((dst < 0) \<noteq> flipped m ! k);
          idx = int k + 1;
          var = (if reverse_variables opts then int mv + 1 - idx else idx)
      in if negative then - var else var)"

text \<open>
  The sign rule in the words of the specification: the original literal's sign, XORed with
  the flip decision, and XORed again if the original literal was negative. The result says
  whether the emitted literal is negative.
\<close>

definition spec_sign_negative :: "int \<Rightarrow> bool \<Rightarrow> bool" where
  "spec_sign_negative src flip_decision = (((src < 0) \<noteq> flip_decision) \<noteq> (src < 0))"

text \<open>The \<open>k\<close>-th state of the generator after \<^verbatim>\<open>srand48 (seed)\<close>, and the \<open>k\<close>-th draw.\<close>

definition state_after :: "int \<Rightarrow> nat \<Rightarrow> rng" where
  "state_after seedval k = ((\<lambda>X. snd (drand48 X)) ^^ k) (srand48 seedval)"

definition draw :: "int \<Rightarrow> nat \<Rightarrow> real" where
  "draw seedval k = fst (drand48 (state_after seedval k))"

text \<open>
  The emitter in the words of the specification. \<open>source_index\<close>: the clause chosen for
  output position \<open>i\<close> is \<open>ClauseMap[i]\<close>, replaced by \<open>num_clauses - 1 - j\<close> when
  \<open>reverse_clauses\<close> is set. \<open>lookup_index\<close>: \<open>idx = |literal|\<close>, replaced by
  \<open>max_var + 1 - idx\<close> when \<open>reverse_variables\<close> is set. \<open>emitted_literal\<close>: the magnitude
  is \<open>VariableMap[idx - 1] + 1\<close>, and the literal is negative exactly when the original
  literal is negative XOR the flip decision at \<open>idx - 1\<close> is set.
\<close>

definition source_index :: "options \<Rightarrow> nat \<Rightarrow> maps \<Rightarrow> nat \<Rightarrow> int" where
  "source_index opts nc m i =
     (let j = int (clause_map m ! i) in if reverse_clauses opts then int nc - 1 - j else j)"

definition lookup_index :: "options \<Rightarrow> nat \<Rightarrow> int \<Rightarrow> int" where
  "lookup_index opts mv src =
     (let idx = \<bar>src\<bar> in if reverse_variables opts then int mv + 1 - idx else idx)"

definition emitted_literal :: "options \<Rightarrow> nat \<Rightarrow> maps \<Rightarrow> int \<Rightarrow> int" where
  "emitted_literal opts mv m src =
     (let k = nat (lookup_index opts mv src - 1);
          new_idx = int (variable_map m ! k) + 1
      in if (src < 0) \<noteq> flipped m ! k then - new_idx else new_idx)"

text \<open>What \<^verbatim>\<open>scramble\<close> guarantees about the three maps for a CNF of the given sizes.\<close>

definition valid_maps :: "nat \<Rightarrow> nat \<Rightarrow> maps \<Rightarrow> bool" where
  "valid_maps mv nc m =
     (length (flipped m) = mv \<and> mset (variable_map m) = mset [0..<mv] \<and>
      mset (clause_map m) = mset [0..<nc])"

subsection \<open>Three option settings used as examples\<close>

definition opts_permute :: options where
  "opts_permute =
     \<lparr>seed = 0, permute_variables = True, permute_clauses = True, reverse_variables = False,
      reverse_clauses = False, literal_flip_probability = 1 / 2, variable_move_window = 1 / 100,
      clause_move_window = 1 / 100, absolute_windows = False\<rparr>"

definition opts_window :: options where
  "opts_window =
     \<lparr>seed = 7, permute_variables = False, permute_clauses = False, reverse_variables = True,
      reverse_clauses = True, literal_flip_probability = 1 / 2, variable_move_window = 1,
      clause_move_window = 1, absolute_windows = False\<rparr>"

definition opts_identity :: options where
  "opts_identity =
     \<lparr>seed = 7, permute_variables = False, permute_clauses = False, reverse_variables = False,
      reverse_clauses = False, literal_flip_probability = 0, variable_move_window = 0,
      clause_move_window = 0, absolute_windows = False\<rparr>"

section \<open>Properties\<close>

subsection \<open>The clause loop of the parser\<close>

lemma body_space:
  "space ch \<Longrightarrow> next_char file lineno = (ch', file', lineno') \<Longrightarrow>
   body mv sp ch file lineno lits nc cls = body mv sp ch' file' lineno' lits nc cls"
  by (subst body.simps) simp

lemma body_eof:
  "body mv sp None file lineno lits nc cls =
     (if lits \<noteq> [] then Inl (ParseError lineno ''terminating zero missing'')
      else if nc < sp then
        Inl (ParseError lineno
          (decimal nc @ '' clause'' @ (if nc + 1 = sp then '''' else ''s'') @ '' missing''))
      else Inr (nc, cls))"
  by (subst body.simps) (simp add: space_def)

lemma body_comment:
  "comment file lineno = (ch', file', lineno') \<Longrightarrow>
   body mv sp (Some CHR ''c'') file lineno lits nc cls = body mv sp ch' file' lineno' lits nc cls"
  by (subst body.simps) (simp add: space_def newline_def)

lemma body_literal:
  "\<not> space ch \<Longrightarrow> ch \<noteq> None \<Longrightarrow> ch \<noteq> Some CHR ''c'' \<Longrightarrow>
   body mv sp ch file lineno lits nc cls =
     (case literal mv sp nc ch file lineno of
        Inl e \<Rightarrow> Inl e
      | Inr (lit, ch', file', lineno') \<Rightarrow>
          if lit \<noteq> 0 then body mv sp ch' file' lineno' (lits @ [lit]) nc cls
          else body mv sp ch' file' lineno' [] (nc + 1) (cls @ [lits @ [0]]))"
  by (subst body.simps) auto

lemma body_cases [case_names space eof comment error nonzero zero]:
  assumes space: "\<And>ch inp lineno lits nc cls ch' file' lineno'.
      space ch \<Longrightarrow> next_char inp lineno = (ch', file', lineno') \<Longrightarrow>
      P ch' file' lineno' lits nc cls \<Longrightarrow> P ch inp lineno lits nc cls"
    and eof: "\<And>inp lineno lits nc cls. P None inp lineno lits nc cls"
    and comment: "\<And>inp lineno lits nc cls ch' file' lineno'.
      comment inp lineno = (ch', file', lineno') \<Longrightarrow>
      P ch' file' lineno' lits nc cls \<Longrightarrow> P (Some CHR ''c'') inp lineno lits nc cls"
    and error: "\<And>ch inp lineno lits nc cls e.
      \<not> space ch \<Longrightarrow> ch \<noteq> None \<Longrightarrow> ch \<noteq> Some CHR ''c'' \<Longrightarrow>
      literal mv sp nc ch inp lineno = Inl e \<Longrightarrow> P ch inp lineno lits nc cls"
    and nonzero: "\<And>ch inp lineno lits nc cls lit ch' file' lineno'.
      \<not> space ch \<Longrightarrow> ch \<noteq> None \<Longrightarrow> ch \<noteq> Some CHR ''c'' \<Longrightarrow>
      literal mv sp nc ch inp lineno = Inr (lit, ch', file', lineno') \<Longrightarrow> lit \<noteq> 0 \<Longrightarrow>
      P ch' file' lineno' (lits @ [lit]) nc cls \<Longrightarrow> P ch inp lineno lits nc cls"
    and zero: "\<And>ch inp lineno lits nc cls ch' file' lineno'.
      \<not> space ch \<Longrightarrow> ch \<noteq> None \<Longrightarrow> ch \<noteq> Some CHR ''c'' \<Longrightarrow>
      literal mv sp nc ch inp lineno = Inr (0, ch', file', lineno') \<Longrightarrow>
      P ch' file' lineno' [] (nc + 1) (cls @ [lits @ [0]]) \<Longrightarrow> P ch inp lineno lits nc cls"
  shows "P ch inp lineno lits nc cls"
proof -
  have "mv' = mv \<Longrightarrow> sp' = sp \<Longrightarrow> P ch inp lineno lits nc cls" for mv' sp'
  proof (induction mv' sp' ch inp lineno lits nc cls rule: body.induct)
    case (1 mv' sp' ch inp lineno lits nc cls)
    note eq = "1.prems"
    show ?case
    proof (cases "space ch")
      case True
      obtain ch' file' lineno' where n: "next_char inp lineno = (ch', file', lineno')"
        by (cases "next_char inp lineno") auto
      have "P ch' file' lineno' lits nc cls"
        by (rule "1.IH"(1) [OF True n [symmetric] refl eq])
      with True n show ?thesis by (rule space)
    next
      case ns: False
      show ?thesis
      proof (cases "ch = None")
        case True
        then show ?thesis by (simp add: eof)
      next
        case nn: False
        show ?thesis
        proof (cases "ch = Some CHR ''c''")
          case True
          obtain ch' file' lineno' where n: "comment inp lineno = (ch', file', lineno')"
            by (cases "comment inp lineno") auto
          have "P ch' file' lineno' lits nc cls"
            by (rule "1.IH"(2) [OF ns nn True n [symmetric] refl eq])
          with n show ?thesis unfolding True by (rule comment)
        next
          case ncm: False
          show ?thesis
          proof (cases "literal mv sp nc ch inp lineno")
            case (Inl e)
            with ns nn ncm show ?thesis by (rule error)
          next
            case (Inr b)
            obtain lit ch' file' lineno' where b: "b = (lit, ch', file', lineno')"
              by (cases b) auto
            from Inr eq have l: "literal mv' sp' nc ch inp lineno = Inr b" by simp
            show ?thesis
            proof (cases "lit = 0")
              case True
              have "P ch' file' lineno' [] (nc + 1) (cls @ [lits @ [0]])"
                by (rule "1.IH"(4) [OF ns nn ncm l]) (use b True eq in auto)
              with ns nn ncm Inr b True show ?thesis by (auto intro: zero)
            next
              case False
              have "P ch' file' lineno' (lits @ [lit]) nc cls"
                by (rule "1.IH"(3) [OF ns nn ncm l]) (use b False eq in auto)
              with ns nn ncm Inr b False show ?thesis by (auto intro: nonzero)
            qed
          qed
        qed
      qed
    qed
  qed
  then show ?thesis by simp
qed


lemma digit_value_le: "isdigit ch \<Longrightarrow> digit_value ch \<le> 9"
  by (auto simp: isdigit_def digit_value_def split: option.splits)

lemma digits_le:
  "digits w t v file lineno = Inr (v', r) \<Longrightarrow> v \<le> INT_MAX \<Longrightarrow> v' \<le> INT_MAX"
proof (induction "file" arbitrary: v lineno)
  case Nil
  then show ?case by simp
next
  case (Cons c cs)
  show ?case
  proof (cases "isdigit (Some c)")
    case True
    with Cons.prems obtain l where
      d: "digits w t (v * 10 + digit_value (Some c)) cs l = Inr (v', r)"
      and b: "\<not> INT_MAX - digit_value (Some c) < v * 10"
      by (auto simp: Let_def split: if_splits)
    from b digit_value_le [OF True] have "v * 10 + digit_value (Some c) \<le> INT_MAX"
      by (simp add: INT_MAX_def)
    from Cons.IH [OF d this] show ?thesis .
  next
    case False
    with Cons.prems show ?thesis by (auto simp: Let_def)
  qed
qed

lemma header_le:
  assumes "header file lineno = Inr (mv, sp, file', lineno')"
  shows "mv \<le> INT_MAX"
proof -
  from assms obtain ch2 file2 lineno2 r where
    i: "isdigit ch2" and
    d: "digits ''variable number way too large'' ''variable number too large''
       (digit_value ch2) file2 lineno2 = Inr (mv, r)"
    by (auto simp: header_def split: sum.splits prod.splits if_splits)
  from i have "digit_value ch2 \<le> INT_MAX"
    using digit_value_le [of ch2] by (simp add: INT_MAX_def)
  with d show ?thesis by (rule digits_le)
qed

lemma literal_sign_cases:
  "literal_sign ch file lineno = Inr (sign, r) \<Longrightarrow> sign = 1 \<or> sign = - 1"
  by (auto simp: literal_sign_def split: if_splits prod.splits)

lemma literal_bound:
  assumes "literal mv sp nc ch file lineno = Inr (lit, r)"
  shows "\<bar>lit\<bar> \<le> int mv" and "nc \<noteq> sp"
proof -
  from assms obtain sign ch1 file1 lineno1 where
    s: "literal_sign ch file lineno = Inr (sign, ch1, file1, lineno1)"
    by (auto simp: literal_def split: sum.splits)
  with assms obtain idx r2 where
    d: "digits ''variable way too large'' ''variable too large'' (digit_value ch1) file1 lineno1 =
          Inr (idx, r2)"
    by (auto simp: literal_def split: sum.splits)
  from assms have l: "lit = sign * int idx \<and> idx \<le> mv \<and> nc \<noteq> sp"
    by (cases r2) (simp add: literal_def s d split: if_splits)
  from literal_sign_cases [OF s] l show "\<bar>lit\<bar> \<le> int mv" by auto
  from l show "nc \<noteq> sp" by simp
qed

lemma body_valid:
  "body mv sp ch file lineno lits nc cls = Inr (nc', cls') \<Longrightarrow>
   nc = length cls \<Longrightarrow> nc \<le> sp \<Longrightarrow> list_all (valid_literal mv) lits \<Longrightarrow>
   list_all (valid_clause mv) cls \<Longrightarrow>
   nc' = length cls' \<and> list_all (valid_clause mv) cls'"
proof (induction ch "file" lineno lits nc cls rule: body_cases [where mv = mv and sp = sp])
  case (space ch inp lineno lits nc cls ch' file' lineno')
  then show ?case by (simp add: body_space)
next
  case (eof inp lineno lits nc cls)
  then show ?case by (simp add: body_eof split: if_splits)
next
  case (comment inp lineno lits nc cls ch' file' lineno')
  then show ?case by (simp add: body_comment)
next
  case (error ch inp lineno lits nc cls e)
  then show ?case by (simp add: body_literal)
next
  case (nonzero ch inp lineno lits nc cls lit ch' file' lineno')
  from nonzero.hyps have b: "body mv sp ch inp lineno lits nc cls =
      body mv sp ch' file' lineno' (lits @ [lit]) nc cls"
    by (simp add: body_literal)
  from literal_bound [OF nonzero.hyps(4)] nonzero.hyps(5)
  have "valid_literal mv lit" by (simp add: valid_literal_def)
  with nonzero.prems nonzero.IH b show ?case by simp
next
  case (zero ch inp lineno lits nc cls ch' file' lineno')
  from zero.hyps have b: "body mv sp ch inp lineno lits nc cls =
      body mv sp ch' file' lineno' [] (nc + 1) (cls @ [lits @ [0]])"
    by (simp add: body_literal)
  from literal_bound [OF zero.hyps(4)] zero.prems have "nc + 1 \<le> sp" by simp
  moreover from zero.prems have "valid_clause mv (lits @ [0])"
    by (simp add: valid_clause_def)
  ultimately show ?case using zero.prems zero.IH b by simp
qed

lemma parse_valid:
  assumes "parse input = Inr f"
  shows "valid_cnf f"
proof -
  from assms obtain file1 lineno1 sp file2 lineno2 ch file3 lineno3 where
    h: "header file1 lineno1 = Inr (max_var f, sp, file2, lineno2)" and
    b: "body (max_var f) sp ch file3 lineno3 [] 0 [] = Inr (num_clauses f, clauses f)"
    by (auto simp: parse_def split: sum.splits prod.splits)
  from body_valid [OF b] header_le [OF h] show ?thesis
    by (simp add: valid_cnf_def)
qed

lemma literals_read_space:
  "space ch \<Longrightarrow> next_char file lineno = (ch', file', lineno') \<Longrightarrow>
   literals_read mv sp ch file lineno nc = literals_read mv sp ch' file' lineno' nc"
  by (subst literals_read.simps) simp

lemma literals_read_eof: "literals_read mv sp None file lineno nc = []"
  by (subst literals_read.simps) (simp add: space_def)

lemma literals_read_comment:
  "comment file lineno = (ch', file', lineno') \<Longrightarrow>
   literals_read mv sp (Some CHR ''c'') file lineno nc = literals_read mv sp ch' file' lineno' nc"
  by (subst literals_read.simps) (simp add: space_def newline_def)

lemma literals_read_literal:
  "\<not> space ch \<Longrightarrow> ch \<noteq> None \<Longrightarrow> ch \<noteq> Some CHR ''c'' \<Longrightarrow>
   literals_read mv sp ch file lineno nc =
     (case literal mv sp nc ch file lineno of
        Inl e \<Rightarrow> []
      | Inr (lit, ch', file', lineno') \<Rightarrow>
          lit # literals_read mv sp ch' file' lineno' (if lit \<noteq> 0 then nc else nc + 1))"
  by (subst literals_read.simps) auto

lemma body_literals_read:
  "body mv sp ch file lineno lits nc cls = Inr (nc', cls') \<Longrightarrow>
   concat cls' = concat cls @ lits @ literals_read mv sp ch file lineno nc"
proof (induction ch "file" lineno lits nc cls rule: body_cases [where mv = mv and sp = sp])
  case (space ch inp lineno lits nc cls ch' file' lineno')
  then show ?case by (simp add: body_space literals_read_space)
next
  case (eof inp lineno lits nc cls)
  then show ?case by (simp add: body_eof literals_read_eof split: if_splits)
next
  case (comment inp lineno lits nc cls ch' file' lineno')
  then show ?case by (simp add: body_comment literals_read_comment)
next
  case (error ch inp lineno lits nc cls e)
  then show ?case by (simp add: body_literal)
next
  case (nonzero ch inp lineno lits nc cls lit ch' file' lineno')
  then show ?case by (simp add: body_literal literals_read_literal)
next
  case (zero ch inp lineno lits nc cls ch' file' lineno')
  then show ?case by (simp add: body_literal literals_read_literal)
qed

subsection \<open>Ranks and flips\<close>

lemma fill_ranks_fst: "map fst (fst (fill_ranks a n p w is X)) = is"
proof (induction "is" arbitrary: X)
  case Nil
  show ?case by simp
next
  case (Cons i "is")
  obtain u X' where d: "drand48 X = (u, X')" by (cases "drand48 X") auto
  obtain ranks X'' where f: "fill_ranks a n p w is X' = (ranks, X'')"
    by (cases "fill_ranks a n p w is X'") auto
  from Cons.IH [of X'] f show ?case by (simp add: d Let_def)
qed

lemma mset_qsort_insert: "mset (qsort_insert cmp x xs) = add_mset x (mset xs)"
  by (induction xs) auto

lemma mset_qsort: "mset (qsort cmp xs) = mset xs"
  by (induction xs) (auto simp: qsort_def mset_qsort_insert)

lemma rank_mset: "mset (fst (rank opts n p w X)) = mset [0..<n]"
proof -
  obtain ranks X1 where
    f: "fill_ranks (absolute_windows opts) n p w [0..<n] (srand48 (seed opts)) = (ranks, X1)"
    by (cases "fill_ranks (absolute_windows opts) n p w [0..<n] (srand48 (seed opts))") auto
  from fill_ranks_fst [of "absolute_windows opts" n p w "[0..<n]" "srand48 (seed opts)"] f
  have m: "map fst ranks = [0..<n]" by simp
  have "mset (map fst (qsort cmp_rank ranks)) = image_mset fst (mset ranks)"
    by (simp add: mset_qsort)
  also have "\<dots> = mset (map fst ranks)" by simp
  finally show ?thesis using f m by (simp add: rank_def Let_def)
qed

lemma rank_length: "length (fst (rank opts n p w X)) = n"
  using mset_eq_length [OF rank_mset [of opts n p w X]] by simp

lemma rank_set: "set (fst (rank opts n p w X)) = {0..<n}"
  using mset_eq_setD [OF rank_mset [of opts n p w X]] by simp

lemma rank_distinct: "distinct (fst (rank opts n p w X))"
  using mset_eq_imp_distinct_iff [OF rank_mset [of opts n p w X]] by simp

lemma qsort_sorted:
  "sorted_wrt (\<lambda>x y. cmp x y \<le> 0) xs \<Longrightarrow> qsort cmp xs = xs"
proof (induction xs)
  case Nil
  show ?case by (simp add: qsort_def)
next
  case (Cons x xs)
  then have "qsort cmp (x # xs) = qsort_insert cmp x xs" by (simp add: qsort_def)
  with Cons.prems show ?case by (cases xs) auto
qed

lemma fill_ranks_width_0:
  "fst (fill_ranks a n False 0 is X) = map (\<lambda>i. (i, real i)) is"
proof (induction "is" arbitrary: X)
  case Nil
  show ?case by simp
next
  case (Cons i "is")
  obtain u X' where d: "drand48 X = (u, X')" by (cases "drand48 X") auto
  obtain ranks X'' where f: "fill_ranks a n False 0 is X' = (ranks, X'')"
    by (cases "fill_ranks a n False 0 is X'") auto
  from Cons.IH [of X'] f show ?case by (simp add: d Let_def)
qed

lemma rank_width_0: "fst (rank opts n False 0 X) = [0..<n]"
proof -
  obtain ranks X1 where
    f: "fill_ranks (absolute_windows opts) n False 0 [0..<n] (srand48 (seed opts)) = (ranks, X1)"
    by (cases "fill_ranks (absolute_windows opts) n False 0 [0..<n] (srand48 (seed opts))") auto
  from fill_ranks_width_0 [of "absolute_windows opts" n "[0..<n]" "srand48 (seed opts)"] f
  have r: "ranks = map (\<lambda>i. (i, real i)) [0..<n]" by simp
  have "sorted_wrt (\<lambda>x y. cmp_rank x y \<le> 0) ranks"
    unfolding r sorted_wrt_map by (rule sorted_wrt_mono_rel [OF _ sorted_wrt_upt]) auto
  then have "qsort cmp_rank ranks = ranks" by (rule qsort_sorted)
  with f r show ?thesis by (simp add: rank_def Let_def comp_def)
qed

lemma drand48_range: "0 \<le> fst (drand48 X) \<and> fst (drand48 X) < 1"
proof -
  have "(0x5DEECE66D * X + 0xB) mod 2 ^ 48 < (2 ^ 48 :: nat)" by simp
  then have "real ((0x5DEECE66D * X + 0xB) mod 2 ^ 48) < 2 ^ 48"
    by (metis of_nat_less_iff of_nat_numeral of_nat_power)
  then show ?thesis by (simp add: drand48_def Let_def)
qed

lemma fill_flipped_draws:
  "fill_flipped p is X =
     (map (\<lambda>k. fst (drand48 (((\<lambda>X. snd (drand48 X)) ^^ k) X)) \<le> p) [0..<length is],
      ((\<lambda>X. snd (drand48 X)) ^^ length is) X)"
proof (induction "is" arbitrary: X)
  case Nil
  show ?case by simp
next
  case (Cons i "is")
  obtain u X' where d: "drand48 X = (u, X')" by (cases "drand48 X") auto
  have sw: "((\<lambda>X. snd (drand48 X)) ^^ k) X' = snd (drand48 (((\<lambda>X. snd (drand48 X)) ^^ k) X))" for k
    using funpow_swap1 [of "\<lambda>X. snd (drand48 X)" k X] d by simp
  show ?case
    by (simp add: d Cons.IH [of X'] map_upt_Suc sw del: upt_Suc)
qed

lemma flip_length: "length (fst (flip opts mv X)) = mv"
  by (simp add: flip_def Let_def fill_flipped_draws)


subsection \<open>The emitter on a parsed CNF\<close>

lemma scramble_maps:
  "fst (scramble opts f X) =
     \<lparr>flipped = fst (flip opts (max_var f) X3),
      clause_map = fst (rank opts (num_clauses f) (permute_clauses opts) (clause_move_window opts) X2),
      variable_map = fst (rank opts (max_var f) (permute_variables opts) (variable_move_window opts) X1)\<rparr>"
  by (simp add: scramble_def rank_def flip_def Let_def split: prod.splits)

lemma scramble_valid: "valid_maps (max_var f) (num_clauses f) (fst (scramble opts f X))"
  unfolding scramble_maps [of opts f X X X X] valid_maps_def
  using rank_mset flip_length by simp

lemma wrap_reverse:
  assumes "1 \<le> a" "a \<le> int mv" "mv \<le> INT_MAX"
  shows "wrap (wrap (int mv + 1) - a) = int mv + 1 - a"
proof -
  have "wrap (wrap (int mv + 1) - a) = ((int mv + 1 + 2 ^ 31) mod 2 ^ 32 - a) mod 2 ^ 32 - 2 ^ 31"
    by (simp add: wrap_def)
  also have "((int mv + 1 + 2 ^ 31) mod 2 ^ 32 - a) mod 2 ^ 32 = (int mv + 1 + 2 ^ 31 - a) mod 2 ^ 32"
    by (rule mod_diff_left_eq)
  also have "\<dots> = int mv + 1 + 2 ^ 31 - a"
    using assms by (simp add: INT_MAX_def)
  finally show ?thesis by simp
qed

lemma lookup_index_range:
  assumes "valid_literal mv src"
  shows "1 \<le> lookup_index opts mv src \<and> lookup_index opts mv src \<le> int mv"
  using assms by (auto simp: valid_literal_def lookup_index_def Let_def)

lemma valid_maps_nth:
  assumes "valid_maps mv nc m" "k < mv"
  shows "variable_map m ! k < mv"
proof -
  from assms(1) have "mset (variable_map m) = mset [0..<mv]" by (simp add: valid_maps_def)
  from mset_eq_length [OF this] mset_eq_setD [OF this] assms(2)
  have "variable_map m ! k \<in> {0..<mv}" by (metis length_upt minus_nat.diff_0 nth_mem set_upt)
  then show ?thesis by simp
qed

lemma print_literal_valid:
  assumes v: "valid_literal mv src" and mv: "mv \<le> INT_MAX" and m: "valid_maps mv nc m"
  shows "print_literal opts mv m src = Inr (emitted_literal opts mv m src)"
proof -
  define idx where "idx = lookup_index opts mv src"
  from lookup_index_range [OF v] have r: "1 \<le> idx" "idx \<le> int mv" by (simp_all add: idx_def)
  from v have a: "1 \<le> \<bar>src\<bar>" "\<bar>src\<bar> \<le> int mv" by (auto simp: valid_literal_def)
  have i: "(if reverse_variables opts then wrap (wrap (int mv + 1) - \<bar>src\<bar>) else \<bar>src\<bar>) = idx"
    using wrap_reverse [OF a mv] by (simp add: idx_def lookup_index_def Let_def)
  from r have k: "nat (idx - 1) < mv" by simp
  from m have l: "length (variable_map m) = mv" "length (flipped m) = mv"
    using mset_eq_length [of "variable_map m" "[0..<mv]"] by (simp_all add: valid_maps_def)
  from valid_maps_nth [OF m k] have d: "int (variable_map m ! nat (idx - 1)) + 1 \<le> int mv" by simp
  show ?thesis
    unfolding print_literal_def Let_def i
    using r k l d by (simp add: emitted_literal_def Let_def idx_def)
qed

lemma print_literals_valid:
  assumes "list_all (valid_literal mv) ls" "mv \<le> INT_MAX" "valid_maps mv nc m"
  shows "print_literals opts mv m (ls @ [0]) = Inr (map (emitted_literal opts mv m) ls)"
  using assms(1)
proof (induction ls)
  case Nil
  show ?case by simp
next
  case (Cons src ls)
  then have "valid_literal mv src" by simp
  from print_literal_valid [OF this assms(2,3)] Cons show ?case
    by (simp add: valid_literal_def)
qed

lemma valid_clause_split:
  "valid_clause mv c \<Longrightarrow> c = butlast c @ [0] \<and> list_all (valid_literal mv) (butlast c)"
  by (auto simp: valid_clause_def) (metis append_butlast_last_id)

lemma valid_maps_clause:
  assumes "valid_maps mv nc m" "i < nc"
  shows "length (clause_map m) = nc" and "clause_map m ! i < nc"
proof -
  from assms(1) have e: "mset (clause_map m) = mset [0..<nc]" by (simp add: valid_maps_def)
  from mset_eq_length [OF e] show l: "length (clause_map m) = nc" by simp
  with assms(2) have "clause_map m ! i \<in> set (clause_map m)" by simp
  with mset_eq_setD [OF e] show "clause_map m ! i < nc" by simp
qed

lemma source_index_range:
  assumes "valid_maps mv nc m" "i < nc"
  shows "0 \<le> source_index opts nc m i \<and> source_index opts nc m i < int nc"
  using valid_maps_clause(2) [OF assms] by (auto simp: source_index_def Let_def)

lemma source_clause_valid:
  assumes m: "valid_maps mv (num_clauses f) m" and i: "i < num_clauses f"
    and f: "num_clauses f = length (clauses f)"
  shows "source_clause opts f m i = Inr (nat (source_index opts (num_clauses f) m i))"
proof -
  define j where "j = source_index opts (num_clauses f) m i"
  from source_index_range [OF m i, of opts] have r: "0 \<le> j" "j < int (num_clauses f)"
    by (simp_all add: j_def)
  then have n: "nat j < length (clauses f)" using f by linarith
  have e: "(if reverse_clauses opts then int (num_clauses f) - 1 - int (clause_map m ! i)
            else int (clause_map m ! i)) = j"
    by (simp add: j_def source_index_def Let_def)
  show ?thesis
    unfolding source_clause_def Let_def e
    using r n valid_maps_clause(1) [OF m i] i by (simp add: j_def)
qed

lemma print_clauses_valid:
  assumes f: "valid_cnf f" and m: "valid_maps (max_var f) (num_clauses f) m"
    and i: "list_all (\<lambda>i. i < num_clauses f) is"
  shows "print_clauses opts f m is =
     Inr (map (\<lambda>i. map (emitted_literal opts (max_var f) m)
                      (butlast (clauses f ! nat (source_index opts (num_clauses f) m i)))) is)"
  using i
proof (induction "is")
  case Nil
  show ?case by simp
next
  case (Cons i "is")
  then have i: "i < num_clauses f" by simp
  from f have n: "num_clauses f = length (clauses f)" and mv: "max_var f \<le> INT_MAX"
    by (simp_all add: valid_cnf_def)
  define j where "j = nat (source_index opts (num_clauses f) m i)"
  from source_index_range [OF m i, of opts] n have "j < length (clauses f)"
    unfolding j_def by linarith
  with f have "valid_clause (max_var f) (clauses f ! j)"
    by (simp add: valid_cnf_def list_all_length)
  from valid_clause_split [OF this]
  have c: "clauses f ! j = butlast (clauses f ! j) @ [0]"
    and v: "list_all (valid_literal (max_var f)) (butlast (clauses f ! j))" by simp_all
  have "print_literals opts (max_var f) m (clauses f ! j) =
      Inr (map (emitted_literal opts (max_var f) m) (butlast (clauses f ! j)))"
    using print_literals_valid [OF v mv m, of opts] c by simp
  with source_clause_valid [OF m i n, of opts] Cons show ?case
    by (simp add: j_def)
qed

lemma print_valid:
  assumes f: "valid_cnf f" and m: "valid_maps (max_var f) (num_clauses f) m"
  shows "print banner opts f m =
     Inr (banner @ header_text (max_var f) (num_clauses f) @
          concat (map (\<lambda>i. line_text (map (emitted_literal opts (max_var f) m)
              (butlast (clauses f ! nat (source_index opts (num_clauses f) m i)))))
            [0..<num_clauses f]))"
proof -
  have "list_all (\<lambda>i. i < num_clauses f) [0..<num_clauses f]" by (simp add: list_all_iff)
  from print_clauses_valid [OF f m this, of opts] show ?thesis
    by (simp add: print_def comp_def)
qed

lemma position_nth:
  assumes "distinct xs" "k < length xs"
  shows "position xs (xs ! k) = k"
proof -
  have "takeWhile (\<lambda>x. x \<noteq> xs ! k) xs = take k xs"
  proof (rule takeWhile_eq_take_P_nth)
    fix i assume "i < k" "i < length xs"
    with assms show "xs ! i \<noteq> xs ! k" by (simp add: nth_eq_iff_index_eq)
  qed simp
  with assms(2) show ?thesis by (simp add: position_def)
qed

lemma undo_emitted:
  assumes v: "valid_literal mv src" and m: "valid_maps mv nc m"
  shows "undo_literal opts mv m (emitted_literal opts mv m src) = src"
proof -
  define k where "k = nat (lookup_index opts mv src - 1)"
  from lookup_index_range [OF v, of opts] have k: "k < mv" "int k + 1 = lookup_index opts mv src"
    unfolding k_def by linarith+
  from m have e: "mset (variable_map m) = mset [0..<mv]" by (simp add: valid_maps_def)
  from mset_eq_length [OF e] have l: "length (variable_map m) = mv" by simp
  from mset_eq_imp_distinct_iff [OF e] have d: "distinct (variable_map m)" by simp
  from position_nth [OF d] k l have p: "position (variable_map m) (variable_map m ! k) = k" by simp
  define dst where "dst = emitted_literal opts mv m src"
  have dst: "dst = (if (src < 0) \<noteq> flipped m ! k then - (int (variable_map m ! k) + 1)
                    else int (variable_map m ! k) + 1)"
    by (simp add: dst_def emitted_literal_def Let_def k_def)
  then have n: "nat (\<bar>dst\<bar> - 1) = variable_map m ! k" by simp
  from dst have s: "(dst < 0) = ((src < 0) \<noteq> flipped m ! k)" by simp
  have var: "(if reverse_variables opts then int mv + 1 - (int k + 1) else int k + 1) = \<bar>src\<bar>"
    unfolding k(2) by (simp add: lookup_index_def Let_def)
  have "undo_literal opts mv m dst = (if src < 0 then - \<bar>src\<bar> else \<bar>src\<bar>)"
    unfolding undo_literal_def Let_def n p var s by simp
  then show ?thesis by (simp add: dst_def)
qed

lemma source_index_mset:
  assumes m: "valid_maps mv nc m"
  shows "mset (map (\<lambda>i. nat (source_index opts nc m i)) [0..<nc]) = mset [0..<nc]"
proof -
  from m have e: "mset (clause_map m) = mset [0..<nc]" by (simp add: valid_maps_def)
  from mset_eq_length [OF e] have l: "length (clause_map m) = nc" by simp
  define g where "g j = nat (if reverse_clauses opts then int nc - 1 - int j else int j)" for j
  have "map (\<lambda>i. nat (source_index opts nc m i)) [0..<nc] = map g (map (\<lambda>i. clause_map m ! i) [0..<nc])"
    by (simp add: source_index_def Let_def g_def)
  also have "map (\<lambda>i. clause_map m ! i) [0..<nc] = clause_map m"
    using l map_nth [of "clause_map m"] by simp
  finally have "mset (map (\<lambda>i. nat (source_index opts nc m i)) [0..<nc]) = image_mset g (mset (clause_map m))"
    by simp
  also have "\<dots> = mset (map g [0..<nc])" unfolding e by simp
  also have "\<dots> = mset [0..<nc]"
  proof (cases "reverse_clauses opts")
    case False
    then have "map g [0..<nc] = [0..<nc]" by (simp add: g_def map_idI)
    then show ?thesis by simp
  next
    case True
    have "map g [0..<nc] = rev [0..<nc]"
      by (rule nth_equalityI) (auto simp: g_def True rev_nth)
    then show ?thesis by simp
  qed
  finally show ?thesis .
qed

lemma source_index_bij:
  assumes m: "valid_maps mv nc m"
  shows "bij_betw (\<lambda>i. nat (source_index opts nc m i)) {0..<nc} {0..<nc}"
proof -
  let ?s = "\<lambda>i. nat (source_index opts nc m i)"
  from mset_eq_imp_distinct_iff [OF source_index_mset [OF m, of opts]]
  have "distinct (map ?s [0..<nc])" by simp
  then have "inj_on ?s {0..<nc}" by (simp add: distinct_map)
  moreover from mset_eq_setD [OF source_index_mset [OF m, of opts]]
  have "?s ` {0..<nc} = {0..<nc}" by simp
  ultimately show ?thesis by (simp add: bij_betw_def)
qed


lemma parsed_run_lines:
  assumes "parse input = Inr f"
  shows "print_clauses opts f (fst (scramble opts f X)) [0..<num_clauses f] =
     Inr (map (\<lambda>i. map (emitted_literal opts (max_var f) (fst (scramble opts f X)))
                      (butlast (clauses f ! nat (source_index opts (num_clauses f)
                         (fst (scramble opts f X)) i)))) [0..<num_clauses f])"
proof -
  have "list_all (\<lambda>i. i < num_clauses f) [0..<num_clauses f]" by (simp add: list_all_iff)
  from print_clauses_valid [OF parse_valid [OF assms] scramble_valid this] show ?thesis .
qed

lemma emitted_literal_range:
  assumes v: "valid_literal mv src" and m: "valid_maps mv nc m"
  shows "1 \<le> \<bar>emitted_literal opts mv m src\<bar> \<and> \<bar>emitted_literal opts mv m src\<bar> \<le> int mv"
proof -
  from lookup_index_range [OF v, of opts] have "nat (lookup_index opts mv src - 1) < mv"
    by linarith
  from valid_maps_nth [OF m this] show ?thesis
    by (simp add: emitted_literal_def Let_def)
qed

lemma selected_clause_valid:
  assumes "valid_cnf f" "valid_maps (max_var f) (num_clauses f) m" "i < num_clauses f"
  shows "valid_clause (max_var f) (clauses f ! nat (source_index opts (num_clauses f) m i))"
proof -
  from assms(1) have n: "num_clauses f = length (clauses f)" by (simp add: valid_cnf_def)
  from source_index_range [OF assms(2,3), of opts] n
  have "nat (source_index opts (num_clauses f) m i) < length (clauses f)" by linarith
  with assms(1) show ?thesis by (simp add: valid_cnf_def list_all_length)
qed

lemma undo_emitted_clause:
  assumes "valid_clause mv c" "valid_maps mv nc m"
  shows "map (undo_literal opts mv m) (map (emitted_literal opts mv m) (butlast c)) @ [0] = c"
proof -
  from valid_clause_split [OF assms(1)]
  have c: "c = butlast c @ [0]" and v: "list_all (valid_literal mv) (butlast c)" by simp_all
  have "map (undo_literal opts mv m) (map (emitted_literal opts mv m) (butlast c)) = butlast c"
    using v undo_emitted [OF _ assms(2), of _ opts] by (simp add: list_all_iff map_idI)
  with c show ?thesis by simp
qed

lemma scramble_identity:
  assumes "literal_flip_probability opts = 0" "variable_move_window opts = 0"
    "clause_move_window opts = 0" "\<not> permute_variables opts" "\<not> permute_clauses opts"
  shows "fst (scramble opts f X) =
     \<lparr>flipped = replicate (max_var f) False, clause_map = [0..<num_clauses f],
      variable_map = [0..<max_var f]\<rparr>"
  unfolding scramble_maps [of opts f X X X X]
  using assms rank_width_0 by (simp add: flip_def Let_def)

lemma emitted_literal_identity:
  assumes "valid_literal mv src" "\<not> reverse_variables opts"
  shows "emitted_literal opts mv
     \<lparr>flipped = replicate mv False, clause_map = cm, variable_map = [0..<mv]\<rparr> src = src"
proof -
  from assms have z: "src \<noteq> 0" by (simp add: valid_literal_def)
  from assms have k: "nat (\<bar>src\<bar> - 1) < mv" "int (nat (\<bar>src\<bar> - 1)) + 1 = \<bar>src\<bar>"
    by (auto simp: valid_literal_def)
  have "emitted_literal opts mv
     \<lparr>flipped = replicate mv False, clause_map = cm, variable_map = [0..<mv]\<rparr> src =
     (if src < 0 then - (int (nat (\<bar>src\<bar> - 1)) + 1) else int (nat (\<bar>src\<bar> - 1)) + 1)"
    using assms(2) k(1) by (simp add: emitted_literal_def lookup_index_def Let_def)
  also have "\<dots> = src" unfolding k(2) by simp
  finally show ?thesis .
qed

lemma source_index_identity:
  assumes "\<not> reverse_clauses opts" "i < nc"
  shows "nat (source_index opts nc
     \<lparr>flipped = fl, clause_map = [0..<nc], variable_map = vm\<rparr> i) = i"
  using assms by (simp add: source_index_def Let_def)

lemma emitted_literal_sign:
  "\<bar>emitted_literal opts mv m src\<bar> =
     int (variable_map m ! nat (lookup_index opts mv src - 1)) + 1 \<and>
   (emitted_literal opts mv m src < 0) =
     ((src < 0) \<noteq> flipped m ! nat (lookup_index opts mv src - 1))"
  by (simp add: emitted_literal_def Let_def)

section \<open>The claims\<close>

lemmas parse_eval =
  parse_def header_start.simps header_def header_end.simps body.simps literal_def literal_sign_def
  next_char_def isdigit_def isprint_def space_def digit_value_def code_def newline_def INT_MAX_def
  Let_def decimal.simps digit_char_def

lemmas scramble_eval =
  scramble_def rank_def flip_def srand48_def drand48_def qsort_def Let_def upt_rec
  opts_permute_def opts_window_def opts_identity_def

lemmas print_eval =
  main_def print_def source_clause_def print_literal_def wrap_def line_text_def header_text_def
  printf_d_def

text \<open>An example run: the input, the maps for \<open>opts_window\<close>, and the output.\<close>

lemma example_parse:
  "parse ''c example\<newline>p cnf 3 3\<newline>1 -2 0\<newline>0\<newline>3 3 -1 0\<newline>'' =
     Inr \<lparr>max_var = 3, num_clauses = 3, clauses = [[1, - 2, 0], [0], [3, 3, - 1, 0]]\<rparr>"
  by (simp add: parse_eval)

lemma example_scramble_window:
  "fst (scramble opts_window
     \<lparr>max_var = 3, num_clauses = 3, clauses = [[1, - 2, 0], [0], [3, 3, - 1, 0]]\<rparr> 0) =
   \<lparr>flipped = [True, False, True], clause_map = [0, 2, 1], variable_map = [0, 2, 1]\<rparr>"
  by (simp add: scramble_eval)

lemma example_print_window:
  "print ''c banner\<newline>'' opts_window
     \<lparr>max_var = 3, num_clauses = 3, clauses = [[1, - 2, 0], [0], [3, 3, - 1, 0]]\<rparr>
     \<lparr>flipped = [True, False, True], clause_map = [0, 2, 1], variable_map = [0, 2, 1]\<rparr> =
   Inr ''c banner\<newline>p cnf 3 3\<newline>-1 -1 2 0\<newline>-2 -3 0\<newline>0\<newline>''"
  by (simp add: print_eval opts_window_def upt_rec decimal.simps digit_char_def newline_def)

lemma example_lines_window:
  "print_clauses opts_window
     \<lparr>max_var = 3, num_clauses = 3, clauses = [[1, - 2, 0], [0], [3, 3, - 1, 0]]\<rparr>
     \<lparr>flipped = [True, False, True], clause_map = [0, 2, 1], variable_map = [0, 2, 1]\<rparr>
     [0..<3] = Inr [[- 1, - 1, 2], [- 2, - 3], []]"
  by (simp add: print_eval opts_window_def upt_rec)

lemma example_undo_window:
  "map (map (undo_literal opts_window 3
       \<lparr>flipped = [True, False, True], clause_map = [0, 2, 1], variable_map = [0, 2, 1]\<rparr>))
     [[- 1, - 1, 2], [- 2, - 3], []] = [[3, 3, - 1], [1, - 2], []]"
  by (simp add: undo_literal_def position_def opts_window_def)

lemma example_parse_plain:
  "parse ''p cnf 3 3\<newline>1 -2 0\<newline>0\<newline>3 3 -1 0\<newline>'' =
     Inr \<lparr>max_var = 3, num_clauses = 3, clauses = [[1, - 2, 0], [0], [3, 3, - 1, 0]]\<rparr>"
  by (simp add: parse_eval)

subsection \<open>The rank generator is a bijection\<close>

text \<open>
  Claim C2. For every \<open>n\<close>, every seed, every generator state at the call, both modes and
  every window width, the array that \<^verbatim>\<open>rank\<close> returns has length \<open>n\<close> and holds every
  value of \<open>{0..<n}\<close> exactly once: it is a bijection on \<open>{0..<n}\<close>. (The sort keys are
  real numbers here; the statement does not depend on their values.)
\<close>

theorem rank_bijection:
  "length (fst (rank opts n permute width X)) = n \<and>
   distinct (fst (rank opts n permute width X)) \<and>
   set (fst (rank opts n permute width X)) = {0..<n} \<and>
   bij_betw (\<lambda>i. fst (rank opts n permute width X) ! i) {0..<n} {0..<n}"
proof -
  let ?r = "fst (rank opts n permute width X)"
  have "bij_betw (\<lambda>i. ?r ! i) {..<length ?r} (set ?r)"
    by (rule bij_betw_nth [OF rank_distinct]) simp_all
  then have "bij_betw (\<lambda>i. ?r ! i) {0..<n} {0..<n}"
    by (simp add: rank_length rank_set atLeast0LessThan)
  then show ?thesis by (simp add: rank_length rank_distinct rank_set)
qed

theorem rank_bijection_witness:
  "fst (rank opts_permute 3 True (1 / 100) 0) = [2, 0, 1] \<and>
   fst (rank opts_window 3 False 1 0) = [0, 2, 1] \<and>
   length (fst (rank opts_permute 3 True (1 / 100) 0)) = 3 \<and>
   distinct (fst (rank opts_window 3 False 1 0))"
proof -
  have "fst (rank opts_permute 3 True (1 / 100) 0) = [2, 0, 1]"
    by (simp add: scramble_eval)
  moreover have "fst (rank opts_window 3 False 1 0) = [0, 2, 1]"
    by (simp add: scramble_eval)
  moreover from rank_bijection [of opts_permute 3 True "1 / 100" 0]
  have "length (fst (rank opts_permute 3 True (1 / 100) 0)) = 3" by (rule conjunct1)
  moreover from rank_bijection [of opts_window 3 False 1 0]
  have "distinct (fst (rank opts_window 3 False 1 0))" by blast
  ultimately show ?thesis by blast
qed

subsection \<open>The message for missing clauses\<close>

text \<open>
  Claim C5. At the end of the input, with no pending literal and fewer clauses read than
  the header declares, \<^verbatim>\<open>parse\<close> fails, but the number in its message is
  \<^verbatim>\<open>num_clauses\<close>, the number of clauses read, not the number of clauses missing: three
  declared and one read gives \<^verbatim>\<open>1 clauses missing\<close>, one declared and none read gives
  \<^verbatim>\<open>0 clause missing\<close>. The two numbers agree when exactly half of the declared clauses
  are there, as in the third input (two declared, one read).
\<close>

theorem missing_clauses_message:
  "parse ''p cnf 1 3\<newline>1 0\<newline>'' = Inl (ParseError 3 ''1 clauses missing'') \<and>
   parse ''p cnf 1 1\<newline>'' = Inl (ParseError 2 ''0 clause missing'') \<and>
   parse ''p cnf 1 2\<newline>1 0\<newline>'' = Inl (ParseError 3 ''1 clause missing'')"
  by (simp add: parse_eval)

subsection \<open>The flip selector\<close>

text \<open>
  Claim C6. For every variable count \<open>mv\<close>, seed and generator state at the call:
  with probability \<open>\<le> 0\<close>, \<^verbatim>\<open>flip\<close> returns the all-false array, and with probability
  \<open>\<ge> 1\<close> the all-true array, and in both cases the generator is left in the state that
  \<^verbatim>\<open>srand48 (seed)\<close> sets (no draw was made); with a probability strictly between, entry
  \<open>i\<close> is true exactly when the \<open>i\<close>-th draw after seeding is \<open>\<le>\<close> the probability,
  one draw is made per variable, and every draw lies in \<open>[0, 1)\<close>.
\<close>

theorem flip_selector:
  "(literal_flip_probability opts \<le> 0 \<longrightarrow>
      flip opts mv X = (replicate mv False, srand48 (seed opts))) \<and>
   (literal_flip_probability opts \<ge> 1 \<longrightarrow>
      flip opts mv X = (replicate mv True, srand48 (seed opts))) \<and>
   (0 < literal_flip_probability opts \<and> literal_flip_probability opts < 1 \<longrightarrow>
      flip opts mv X =
        (map (\<lambda>i. draw (seed opts) i \<le> literal_flip_probability opts) [0..<mv],
         state_after (seed opts) mv) \<and>
      list_all (\<lambda>i. 0 \<le> draw (seed opts) i \<and> draw (seed opts) i < 1) [0..<mv])"
  by (simp add: flip_def Let_def fill_flipped_draws draw_def state_after_def list_all_iff
    drand48_range)

theorem flip_selector_witness:
  "flip opts_identity 3 0 = ([False, False, False], srand48 7) \<and>
   flip (opts_identity\<lparr>literal_flip_probability := 1\<rparr>) 3 0 = ([True, True, True], srand48 7) \<and>
   flip opts_permute 3 0 =
     ([draw 0 0 \<le> 1 / 2, draw 0 1 \<le> 1 / 2, draw 0 2 \<le> 1 / 2], state_after 0 3) \<and>
   fst (flip opts_permute 3 0) = [True, False, True]"
proof -
  have "literal_flip_probability opts_identity \<le> 0" by (simp add: opts_identity_def)
  with flip_selector [of opts_identity 3 0]
  have "flip opts_identity 3 0 = (replicate 3 False, srand48 (seed opts_identity))" by blast
  then have a: "flip opts_identity 3 0 = ([False, False, False], srand48 7)"
    by (simp add: opts_identity_def numeral_3_eq_3)
  have "literal_flip_probability (opts_identity\<lparr>literal_flip_probability := 1\<rparr>) \<ge> 1" by simp
  with flip_selector [of "opts_identity\<lparr>literal_flip_probability := 1\<rparr>" 3 0]
  have "flip (opts_identity\<lparr>literal_flip_probability := 1\<rparr>) 3 0 =
      (replicate 3 True, srand48 (seed (opts_identity\<lparr>literal_flip_probability := 1\<rparr>)))" by blast
  then have b: "flip (opts_identity\<lparr>literal_flip_probability := 1\<rparr>) 3 0 =
      ([True, True, True], srand48 7)"
    by (simp add: opts_identity_def numeral_3_eq_3)
  have "0 < literal_flip_probability opts_permute \<and> literal_flip_probability opts_permute < 1"
    by (simp add: opts_permute_def)
  with flip_selector [of opts_permute 3 0]
  have "flip opts_permute 3 0 =
      (map (\<lambda>i. draw (seed opts_permute) i \<le> literal_flip_probability opts_permute) [0..<3],
       state_after (seed opts_permute) 3)" by blast
  then have c: "flip opts_permute 3 0 =
      ([draw 0 0 \<le> 1 / 2, draw 0 1 \<le> 1 / 2, draw 0 2 \<le> 1 / 2], state_after 0 3)"
    by (simp add: opts_permute_def upt_rec numeral_2_eq_2)
  have d: "fst (flip opts_permute 3 0) = [True, False, True]"
    by (simp add: scramble_eval)
  from a b c d show ?thesis by blast
qed

subsection \<open>Reseeding\<close>

text \<open>
  Claim C7. The generator is reseeded at the start of \<^verbatim>\<open>rank\<close> and of \<^verbatim>\<open>flip\<close>, so the
  map each of them returns does not depend on the state of the generator at the call:
  each of the three maps of \<^verbatim>\<open>scramble\<close> is what the call computes from any state
  (hence in any order of the three calls), and the bytes that \<^verbatim>\<open>main\<close> writes for given
  options, seed and input are the same for every state of the generator.
\<close>

theorem reseeding_determinism:
  "fst (rank opts n permute width X) = fst (rank opts n permute width X') \<and>
   fst (flip opts mv X) = fst (flip opts mv X') \<and>
   fst (scramble opts f X) =
     \<lparr>flipped = fst (flip opts (max_var f) X3),
      clause_map =
        fst (rank opts (num_clauses f) (permute_clauses opts) (clause_move_window opts) X2),
      variable_map =
        fst (rank opts (max_var f) (permute_variables opts) (variable_move_window opts) X1)\<rparr> \<and>
   main banner opts input X = main banner opts input X'"
proof -
  have "fst (scramble opts f X) = fst (scramble opts f X')" for f
    using scramble_maps [of opts f X 0 0 0] scramble_maps [of opts f X' 0 0 0] by simp
  then have "main banner opts input X = main banner opts input X'"
    by (simp add: main_def split: sum.splits)
  moreover have "fst (rank opts n permute width X) = fst (rank opts n permute width X')"
    by (simp add: rank_def Let_def)
  moreover have "fst (flip opts mv X) = fst (flip opts mv X')"
    by (simp add: flip_def Let_def)
  ultimately show ?thesis using scramble_maps [of opts f X X3 X2 X1] by simp
qed

subsection \<open>What the parser stores\<close>

lemma parse_clause_literals:
  assumes "parse input = Inr f"
  shows "concat (clauses f) = clause_literals input"
proof -
  from assms obtain file1 lineno1 mv sp file2 lineno2 ch file3 lineno3 nc where
    "header_start input 1 = Inr (file1, lineno1)"
    "header file1 lineno1 = Inr (mv, sp, file2, lineno2)"
    "next_char file2 lineno2 = (ch, file3, lineno3)"
    "body mv sp ch file3 lineno3 [] 0 [] = Inr (nc, clauses f)"
    by (auto simp: parse_def split: sum.splits prod.splits)
  then show ?thesis
    using body_literals_read [of mv sp ch file3 lineno3 "[]" 0 "[]" nc "clauses f"]
    by (simp add: clause_literals_def)
qed

text \<open>
  Claim C8. For every accepted input, the arrays that \<^verbatim>\<open>parse\<close> stores, one after the
  other, are exactly the literals of the clause section in the order read, and every
  array is a run of nonzero literals closed by the one terminating zero: the zero ends the
  clause and is never one of its literals, and no literal is dropped, merged or reordered.
\<close>

theorem parse_stores_literals:
  assumes "parse input = Inr f"
  shows "concat (clauses f) = clause_literals input \<and>
    list_all (\<lambda>c. c \<noteq> [] \<and> last c = 0 \<and> 0 \<notin> set (butlast c)) (clauses f)"
proof -
  from parse_valid [OF assms]
  have "list_all (valid_clause (max_var f)) (clauses f)" by (simp add: valid_cnf_def)
  then have "list_all (\<lambda>c. c \<noteq> [] \<and> last c = 0 \<and> 0 \<notin> set (butlast c)) (clauses f)"
    by (auto simp: list_all_iff valid_clause_def valid_literal_def)
  with parse_clause_literals [OF assms] show ?thesis by simp
qed

theorem parse_stores_literals_witness:
  "parse ''p cnf 2 2\<newline>1 1 -1 0\<newline>-2 2 0\<newline>'' =
     Inr \<lparr>max_var = 2, num_clauses = 2, clauses = [[1, 1, - 1, 0], [- 2, 2, 0]]\<rparr> \<and>
   clause_literals ''p cnf 2 2\<newline>1 1 -1 0\<newline>-2 2 0\<newline>'' = [1, 1, - 1, 0, - 2, 2, 0] \<and>
   concat [[1, 1, - 1, 0], [- 2, 2, 0]] = clause_literals ''p cnf 2 2\<newline>1 1 -1 0\<newline>-2 2 0\<newline>''"
proof -
  have p: "parse ''p cnf 2 2\<newline>1 1 -1 0\<newline>-2 2 0\<newline>'' =
     Inr \<lparr>max_var = 2, num_clauses = 2, clauses = [[1, 1, - 1, 0], [- 2, 2, 0]]\<rparr>"
    by (simp add: parse_eval)
  have "clause_literals ''p cnf 2 2\<newline>1 1 -1 0\<newline>-2 2 0\<newline>'' = [1, 1, - 1, 0, - 2, 2, 0]"
    by (simp add: clause_literals_def literals_read.simps parse_eval)
  with p parse_stores_literals [OF p] show ?thesis by simp
qed

subsection \<open>The emitter stays in bounds\<close>

text \<open>
  Claim C9. For every CNF that \<^verbatim>\<open>parse\<close> returns and the maps that \<^verbatim>\<open>scramble\<close> builds
  for it, under every option setting, \<^verbatim>\<open>print\<close> ends normally (no assertion fails and
  no array is read outside its bounds, which the model would report as an error): every
  output position selects a clause index in \<open>[0, num_clauses)\<close>; for every stored
  literal the reversed index \<open>max_var + 1 - idx\<close>, also as computed in 32-bit arithmetic,
  lies in \<open>[1, max_var]\<close>, as does \<open>idx\<close> itself; and the value looked up and written
  has magnitude in \<open>[1, max_var]\<close>.
\<close>

theorem emitter_in_bounds:
  assumes "parse input = Inr f"
  shows "(\<exists>text. print banner opts f (fst (scramble opts f X)) = Inr text) \<and>
    list_all (\<lambda>i. \<exists>j. source_clause opts f (fst (scramble opts f X)) i = Inr j \<and>
                     j < num_clauses f \<and> j < length (clauses f)) [0..<num_clauses f] \<and>
    list_all (\<lambda>c. list_all (\<lambda>src.
        wrap (wrap (int (max_var f) + 1) - \<bar>src\<bar>) = int (max_var f) + 1 - \<bar>src\<bar> \<and>
        1 \<le> int (max_var f) + 1 - \<bar>src\<bar> \<and> int (max_var f) + 1 - \<bar>src\<bar> \<le> int (max_var f) \<and>
        1 \<le> \<bar>src\<bar> \<and> \<bar>src\<bar> \<le> int (max_var f) \<and>
        (\<exists>dst. print_literal opts (max_var f) (fst (scramble opts f X)) src = Inr dst \<and>
               1 \<le> \<bar>dst\<bar> \<and> \<bar>dst\<bar> \<le> int (max_var f))) (butlast c)) (clauses f)"
proof -
  let ?m = "fst (scramble opts f X)"
  note f = parse_valid [OF assms]
  note m = scramble_valid [of f opts X]
  from f have n: "num_clauses f = length (clauses f)" and mv: "max_var f \<le> INT_MAX"
    by (simp_all add: valid_cnf_def)
  have 1: "\<exists>text. print banner opts f ?m = Inr text"
    using print_valid [OF f m] by simp
  have 2: "list_all (\<lambda>i. \<exists>j. source_clause opts f ?m i = Inr j \<and>
                     j < num_clauses f \<and> j < length (clauses f)) [0..<num_clauses f]"
    unfolding list_all_iff
  proof
    fix i assume "i \<in> set [0..<num_clauses f]"
    then have i: "i < num_clauses f" by simp
    from source_index_range [OF m i, of opts]
    have "nat (source_index opts (num_clauses f) ?m i) < num_clauses f" by linarith
    with source_clause_valid [OF m i n, of opts] n
    show "\<exists>j. source_clause opts f ?m i = Inr j \<and> j < num_clauses f \<and> j < length (clauses f)"
      by simp
  qed
  have 3: "list_all (\<lambda>c. list_all (\<lambda>src.
        wrap (wrap (int (max_var f) + 1) - \<bar>src\<bar>) = int (max_var f) + 1 - \<bar>src\<bar> \<and>
        1 \<le> int (max_var f) + 1 - \<bar>src\<bar> \<and> int (max_var f) + 1 - \<bar>src\<bar> \<le> int (max_var f) \<and>
        1 \<le> \<bar>src\<bar> \<and> \<bar>src\<bar> \<le> int (max_var f) \<and>
        (\<exists>dst. print_literal opts (max_var f) ?m src = Inr dst \<and>
               1 \<le> \<bar>dst\<bar> \<and> \<bar>dst\<bar> \<le> int (max_var f))) (butlast c)) (clauses f)"
    unfolding list_all_iff
  proof (intro ballI)
    fix c src assume "c \<in> set (clauses f)" "src \<in> set (butlast c)"
    with f have v: "valid_literal (max_var f) src"
      by (auto simp: valid_cnf_def valid_clause_def list_all_iff)
    then have a: "1 \<le> \<bar>src\<bar>" "\<bar>src\<bar> \<le> int (max_var f)" by (auto simp: valid_literal_def)
    from wrap_reverse [OF a mv] a print_literal_valid [OF v mv m, of opts]
      emitted_literal_range [OF v m, of opts]
    show "wrap (wrap (int (max_var f) + 1) - \<bar>src\<bar>) = int (max_var f) + 1 - \<bar>src\<bar> \<and>
        1 \<le> int (max_var f) + 1 - \<bar>src\<bar> \<and> int (max_var f) + 1 - \<bar>src\<bar> \<le> int (max_var f) \<and>
        1 \<le> \<bar>src\<bar> \<and> \<bar>src\<bar> \<le> int (max_var f) \<and>
        (\<exists>dst. print_literal opts (max_var f) ?m src = Inr dst \<and>
               1 \<le> \<bar>dst\<bar> \<and> \<bar>dst\<bar> \<le> int (max_var f))"
      by simp
  qed
  from 1 2 3 show ?thesis by blast
qed

theorem emitter_in_bounds_witness:
  "parse ''c example\<newline>p cnf 3 3\<newline>1 -2 0\<newline>0\<newline>3 3 -1 0\<newline>'' =
     Inr \<lparr>max_var = 3, num_clauses = 3, clauses = [[1, - 2, 0], [0], [3, 3, - 1, 0]]\<rparr> \<and>
   print ''c banner\<newline>'' opts_window
     \<lparr>max_var = 3, num_clauses = 3, clauses = [[1, - 2, 0], [0], [3, 3, - 1, 0]]\<rparr>
     (fst (scramble opts_window
        \<lparr>max_var = 3, num_clauses = 3, clauses = [[1, - 2, 0], [0], [3, 3, - 1, 0]]\<rparr> 0)) =
   Inr ''c banner\<newline>p cnf 3 3\<newline>-1 -1 2 0\<newline>-2 -3 0\<newline>0\<newline>'' \<and>
   (\<exists>text. print ''c banner\<newline>'' opts_window
     \<lparr>max_var = 3, num_clauses = 3, clauses = [[1, - 2, 0], [0], [3, 3, - 1, 0]]\<rparr>
     (fst (scramble opts_window
        \<lparr>max_var = 3, num_clauses = 3, clauses = [[1, - 2, 0], [0], [3, 3, - 1, 0]]\<rparr> 0)) = Inr text)"
proof -
  from emitter_in_bounds [OF example_parse, of "''c banner\<newline>''" opts_window 0]
  have "\<exists>text. print ''c banner\<newline>'' opts_window
     \<lparr>max_var = 3, num_clauses = 3, clauses = [[1, - 2, 0], [0], [3, 3, - 1, 0]]\<rparr>
     (fst (scramble opts_window
        \<lparr>max_var = 3, num_clauses = 3, clauses = [[1, - 2, 0], [0], [3, 3, - 1, 0]]\<rparr> 0)) = Inr text"
    by (rule conjunct1)
  with example_parse example_print_window show ?thesis
    unfolding example_scramble_window by blast
qed

subsection \<open>Scrambling is a renaming\<close>

text \<open>
  Claim C1. For every CNF that \<^verbatim>\<open>parse\<close> returns and every option setting, \<^verbatim>\<open>print\<close>
  writes one line per clause; the map from output positions to the clauses they are
  written from is a bijection on the clause indices; and undoing the variable map, the
  flip set and the reversal on the values of a line gives back the literals of its
  clause, in their order and with their signs (so also as a multiset): no literal is
  invented or dropped.
\<close>

theorem scrambling_is_a_renaming:
  assumes "parse input = Inr f"
  shows "\<exists>lines. print_clauses opts f (fst (scramble opts f X)) [0..<num_clauses f] = Inr lines \<and>
    length lines = num_clauses f \<and>
    bij_betw (\<lambda>i. nat (source_index opts (num_clauses f) (fst (scramble opts f X)) i))
      {0..<num_clauses f} {0..<num_clauses f} \<and>
    list_all (\<lambda>i.
        map (undo_literal opts (max_var f) (fst (scramble opts f X))) (lines ! i) @ [0] =
          clauses f ! nat (source_index opts (num_clauses f) (fst (scramble opts f X)) i) \<and>
        length (lines ! i) + 1 =
          length (clauses f ! nat (source_index opts (num_clauses f) (fst (scramble opts f X)) i)))
      [0..<num_clauses f]"
proof -
  let ?m = "fst (scramble opts f X)"
  let ?s = "\<lambda>i. nat (source_index opts (num_clauses f) ?m i)"
  let ?lines = "map (\<lambda>i. map (emitted_literal opts (max_var f) ?m) (butlast (clauses f ! ?s i)))
      [0..<num_clauses f]"
  note f = parse_valid [OF assms]
  note m = scramble_valid [of f opts X]
  have 1: "print_clauses opts f ?m [0..<num_clauses f] = Inr ?lines"
    by (rule parsed_run_lines [OF assms])
  have 2: "length ?lines = num_clauses f" by simp
  have 3: "bij_betw ?s {0..<num_clauses f} {0..<num_clauses f}"
    by (rule source_index_bij [OF m])
  have 4: "list_all (\<lambda>i.
        map (undo_literal opts (max_var f) ?m) (?lines ! i) @ [0] = clauses f ! ?s i \<and>
        length (?lines ! i) + 1 = length (clauses f ! ?s i)) [0..<num_clauses f]"
    unfolding list_all_iff
  proof
    fix i assume "i \<in> set [0..<num_clauses f]"
    then have i: "i < num_clauses f" by simp
    note c = selected_clause_valid [OF f m i, of opts]
    from i have l: "?lines ! i = map (emitted_literal opts (max_var f) ?m) (butlast (clauses f ! ?s i))"
      by simp
    from c have "clauses f ! ?s i \<noteq> []" by (simp add: valid_clause_def)
    then have "length (butlast (clauses f ! ?s i)) + 1 = length (clauses f ! ?s i)" by simp
    with undo_emitted_clause [OF c m, of opts]
    show "map (undo_literal opts (max_var f) ?m) (?lines ! i) @ [0] = clauses f ! ?s i \<and>
        length (?lines ! i) + 1 = length (clauses f ! ?s i)"
      unfolding l by simp
  qed
  from 1 2 3 4 show ?thesis by blast
qed

theorem scrambling_is_a_renaming_witness:
  "parse ''c example\<newline>p cnf 3 3\<newline>1 -2 0\<newline>0\<newline>3 3 -1 0\<newline>'' =
     Inr \<lparr>max_var = 3, num_clauses = 3, clauses = [[1, - 2, 0], [0], [3, 3, - 1, 0]]\<rparr> \<and>
   print_clauses opts_window
     \<lparr>max_var = 3, num_clauses = 3, clauses = [[1, - 2, 0], [0], [3, 3, - 1, 0]]\<rparr>
     (fst (scramble opts_window
        \<lparr>max_var = 3, num_clauses = 3, clauses = [[1, - 2, 0], [0], [3, 3, - 1, 0]]\<rparr> 0))
     [0..<3] = Inr [[- 1, - 1, 2], [- 2, - 3], []] \<and>
   map (map (undo_literal opts_window 3
       (fst (scramble opts_window
          \<lparr>max_var = 3, num_clauses = 3, clauses = [[1, - 2, 0], [0], [3, 3, - 1, 0]]\<rparr> 0))))
     [[- 1, - 1, 2], [- 2, - 3], []] = [[3, 3, - 1], [1, - 2], []] \<and>
   bij_betw (\<lambda>i. nat (source_index opts_window 3
       (fst (scramble opts_window
          \<lparr>max_var = 3, num_clauses = 3, clauses = [[1, - 2, 0], [0], [3, 3, - 1, 0]]\<rparr> 0)) i))
     {0..<3} {0..<3}"
proof -
  from scrambling_is_a_renaming [OF example_parse, of opts_window 0]
  have "bij_betw (\<lambda>i. nat (source_index opts_window 3
       (fst (scramble opts_window
          \<lparr>max_var = 3, num_clauses = 3, clauses = [[1, - 2, 0], [0], [3, 3, - 1, 0]]\<rparr> 0)) i))
     {0..<3} {0..<3}"
    by auto
  with example_parse example_lines_window example_undo_window show ?thesis
    unfolding example_scramble_window by blast
qed

subsection \<open>The identity options\<close>

text \<open>
  Claim C3. With flip probability \<open>0\<close>, both windows \<open>0\<close>, both reversal flags off and
  both permutation flags off, for every input that \<^verbatim>\<open>parse\<close> accepts, every seed and
  either kind of window: \<^verbatim>\<open>rank\<close> in windowed mode with width \<open>0\<close> returns the identity
  (every key equals its index), the three maps are the identity maps and the all-false
  flip set, the lines written are the stored clauses in their order, literal by literal,
  and the output is the header with the same \<^verbatim>\<open>max_var\<close> and \<^verbatim>\<open>num_clauses\<close> followed by
  those lines.
\<close>

theorem identity_options_reproduce_input:
  assumes "parse input = Inr f"
    and "literal_flip_probability opts = 0" and "variable_move_window opts = 0"
    and "clause_move_window opts = 0" and "\<not> reverse_variables opts"
    and "\<not> reverse_clauses opts" and "\<not> permute_variables opts" and "\<not> permute_clauses opts"
  shows "fst (rank opts n False 0 X') = [0..<n] \<and>
    fst (scramble opts f X) =
      \<lparr>flipped = replicate (max_var f) False, clause_map = [0..<num_clauses f],
       variable_map = [0..<max_var f]\<rparr> \<and>
    print_clauses opts f (fst (scramble opts f X)) [0..<num_clauses f] =
      Inr (map butlast (clauses f)) \<and>
    main banner opts input X =
      Inr (banner opts @ header_text (max_var f) (num_clauses f) @
           concat (map (\<lambda>c. line_text (butlast c)) (clauses f)))"
proof -
  let ?m = "\<lparr>flipped = replicate (max_var f) False, clause_map = [0..<num_clauses f],
       variable_map = [0..<max_var f]\<rparr>"
  note f = parse_valid [OF assms(1)]
  from f have n: "num_clauses f = length (clauses f)" by (simp add: valid_cnf_def)
  have m: "fst (scramble opts f X) = ?m"
    by (rule scramble_identity [OF assms(2,3,4,7,8)])
  have v: "valid_maps (max_var f) (num_clauses f) ?m"
    using scramble_valid [of f opts X] unfolding m .
  have "map (\<lambda>i. map (emitted_literal opts (max_var f) ?m)
                      (butlast (clauses f ! nat (source_index opts (num_clauses f) ?m i))))
          [0..<num_clauses f] = map butlast (clauses f)"
  proof (rule nth_equalityI)
    show "length (map (\<lambda>i. map (emitted_literal opts (max_var f) ?m)
                      (butlast (clauses f ! nat (source_index opts (num_clauses f) ?m i))))
          [0..<num_clauses f]) = length (map butlast (clauses f))"
      using n by simp
  next
    fix i assume "i < length (map (\<lambda>i. map (emitted_literal opts (max_var f) ?m)
                      (butlast (clauses f ! nat (source_index opts (num_clauses f) ?m i))))
          [0..<num_clauses f])"
    then have i: "i < num_clauses f" by simp
    have s: "nat (source_index opts (num_clauses f) ?m i) = i"
      by (rule source_index_identity [OF assms(6) i])
    from selected_clause_valid [OF f v i, of opts]
    have "list_all (valid_literal (max_var f)) (butlast (clauses f ! i))"
      unfolding s by (simp add: valid_clause_def)
    then have "map (emitted_literal opts (max_var f) ?m) (butlast (clauses f ! i)) =
        butlast (clauses f ! i)"
      using emitted_literal_identity [OF _ assms(5)] by (simp add: list_all_iff map_idI)
    moreover from i n have "i < length (clauses f)" by simp
    ultimately show "map (\<lambda>i. map (emitted_literal opts (max_var f) ?m)
                      (butlast (clauses f ! nat (source_index opts (num_clauses f) ?m i))))
          [0..<num_clauses f] ! i = map butlast (clauses f) ! i"
      using i by (simp add: s)
  qed
  with parsed_run_lines [OF assms(1), of opts X]
  have l: "print_clauses opts f (fst (scramble opts f X)) [0..<num_clauses f] =
      Inr (map butlast (clauses f))"
    unfolding m by simp
  then have "main banner opts input X =
      Inr (banner opts @ header_text (max_var f) (num_clauses f) @
           concat (map (\<lambda>c. line_text (butlast c)) (clauses f)))"
    using assms(1) by (simp add: main_def print_def comp_def)
  with rank_width_0 m l show ?thesis by simp
qed

theorem identity_options_reproduce_input_witness:
  "parse ''p cnf 3 3\<newline>1 -2 0\<newline>0\<newline>3 3 -1 0\<newline>'' =
     Inr \<lparr>max_var = 3, num_clauses = 3, clauses = [[1, - 2, 0], [0], [3, 3, - 1, 0]]\<rparr> \<and>
   main (\<lambda>opts. []) opts_identity ''p cnf 3 3\<newline>1 -2 0\<newline>0\<newline>3 3 -1 0\<newline>'' 0 =
     Inr ''p cnf 3 3\<newline>1 -2 0\<newline>0\<newline>3 3 -1 0\<newline>''"
proof -
  have "main (\<lambda>opts. []) opts_identity ''p cnf 3 3\<newline>1 -2 0\<newline>0\<newline>3 3 -1 0\<newline>'' 0 =
      Inr ([] @ header_text 3 3 @ concat (map (\<lambda>c. line_text (butlast c))
         [[1, - 2, 0], [0], [3, 3, - 1, 0]]))"
    using identity_options_reproduce_input [OF example_parse_plain, of opts_identity 0 0 0 "\<lambda>opts. []"]
    by (simp add: opts_identity_def)
  then have "main (\<lambda>opts. []) opts_identity ''p cnf 3 3\<newline>1 -2 0\<newline>0\<newline>3 3 -1 0\<newline>'' 0 =
      Inr ''p cnf 3 3\<newline>1 -2 0\<newline>0\<newline>3 3 -1 0\<newline>''"
    by (simp add: header_text_def line_text_def printf_d_def decimal.simps digit_char_def newline_def)
  with example_parse_plain show ?thesis by blast
qed

subsection \<open>The rule of the emitter\<close>

text \<open>
  Claim C4, amended in its sign rule. For every CNF that \<^verbatim>\<open>parse\<close> returns, the maps of
  \<^verbatim>\<open>scramble\<close> and every output position \<open>i\<close>: the clause written is
  \<open>j = ClauseMap[i]\<close>, replaced by \<open>num_clauses - 1 - j\<close> when \<^verbatim>\<open>reverse_clauses\<close> is set
  (the reversal is applied to the result of the lookup); its literals are written in their
  order; and for each literal, with \<open>idx = |literal|\<close>, replaced by \<open>max_var + 1 - idx\<close>
  when \<^verbatim>\<open>reverse_variables\<close> is set, the value written has magnitude
  \<open>VariableMap[idx - 1] + 1\<close> and is negative exactly when the original literal is
  negative XOR the flip decision at \<open>idx - 1\<close> is set. The sign of the original literal
  enters once.
\<close>

theorem emitter_rule:
  assumes "parse input = Inr f" and "i < num_clauses f"
  shows "source_clause opts f (fst (scramble opts f X)) i =
      Inr (nat (source_index opts (num_clauses f) (fst (scramble opts f X)) i)) \<and>
    source_index opts (num_clauses f) (fst (scramble opts f X)) i =
      (if reverse_clauses opts
       then int (num_clauses f) - 1 - int (clause_map (fst (scramble opts f X)) ! i)
       else int (clause_map (fst (scramble opts f X)) ! i)) \<and>
    print_literals opts (max_var f) (fst (scramble opts f X))
        (clauses f ! nat (source_index opts (num_clauses f) (fst (scramble opts f X)) i)) =
      Inr (map (emitted_literal opts (max_var f) (fst (scramble opts f X)))
        (butlast (clauses f ! nat (source_index opts (num_clauses f) (fst (scramble opts f X)) i)))) \<and>
    list_all (\<lambda>src.
        lookup_index opts (max_var f) src =
          (if reverse_variables opts then int (max_var f) + 1 - \<bar>src\<bar> else \<bar>src\<bar>) \<and>
        print_literal opts (max_var f) (fst (scramble opts f X)) src =
          Inr (emitted_literal opts (max_var f) (fst (scramble opts f X)) src) \<and>
        \<bar>emitted_literal opts (max_var f) (fst (scramble opts f X)) src\<bar> =
          int (variable_map (fst (scramble opts f X)) ! nat (lookup_index opts (max_var f) src - 1)) + 1 \<and>
        (emitted_literal opts (max_var f) (fst (scramble opts f X)) src < 0) =
          ((src < 0) \<noteq>
           flipped (fst (scramble opts f X)) ! nat (lookup_index opts (max_var f) src - 1)))
      (butlast (clauses f ! nat (source_index opts (num_clauses f) (fst (scramble opts f X)) i)))"
proof -
  let ?m = "fst (scramble opts f X)"
  let ?j = "nat (source_index opts (num_clauses f) ?m i)"
  note f = parse_valid [OF assms(1)]
  note m = scramble_valid [of f opts X]
  from f have n: "num_clauses f = length (clauses f)" and mv: "max_var f \<le> INT_MAX"
    by (simp_all add: valid_cnf_def)
  note c = selected_clause_valid [OF f m assms(2), of opts]
  from valid_clause_split [OF c]
  have s: "clauses f ! ?j = butlast (clauses f ! ?j) @ [0]"
    and v: "list_all (valid_literal (max_var f)) (butlast (clauses f ! ?j))" by simp_all
  have 1: "source_clause opts f ?m i = Inr ?j"
    by (rule source_clause_valid [OF m assms(2) n])
  have 2: "source_index opts (num_clauses f) ?m i =
      (if reverse_clauses opts then int (num_clauses f) - 1 - int (clause_map ?m ! i)
       else int (clause_map ?m ! i))"
    by (simp add: source_index_def Let_def)
  have 3: "print_literals opts (max_var f) ?m (clauses f ! ?j) =
      Inr (map (emitted_literal opts (max_var f) ?m) (butlast (clauses f ! ?j)))"
    using print_literals_valid [OF v mv m, of opts] s by simp
  have 4: "list_all (\<lambda>src.
        lookup_index opts (max_var f) src =
          (if reverse_variables opts then int (max_var f) + 1 - \<bar>src\<bar> else \<bar>src\<bar>) \<and>
        print_literal opts (max_var f) ?m src = Inr (emitted_literal opts (max_var f) ?m src) \<and>
        \<bar>emitted_literal opts (max_var f) ?m src\<bar> =
          int (variable_map ?m ! nat (lookup_index opts (max_var f) src - 1)) + 1 \<and>
        (emitted_literal opts (max_var f) ?m src < 0) =
          ((src < 0) \<noteq> flipped ?m ! nat (lookup_index opts (max_var f) src - 1)))
      (butlast (clauses f ! ?j))"
    unfolding list_all_iff
  proof
    fix src assume "src \<in> set (butlast (clauses f ! ?j))"
    with v have "valid_literal (max_var f) src" by (simp add: list_all_iff)
    from print_literal_valid [OF this mv m, of opts] emitted_literal_sign [of opts "max_var f" ?m src]
    show "lookup_index opts (max_var f) src =
          (if reverse_variables opts then int (max_var f) + 1 - \<bar>src\<bar> else \<bar>src\<bar>) \<and>
        print_literal opts (max_var f) ?m src = Inr (emitted_literal opts (max_var f) ?m src) \<and>
        \<bar>emitted_literal opts (max_var f) ?m src\<bar> =
          int (variable_map ?m ! nat (lookup_index opts (max_var f) src - 1)) + 1 \<and>
        (emitted_literal opts (max_var f) ?m src < 0) =
          ((src < 0) \<noteq> flipped ?m ! nat (lookup_index opts (max_var f) src - 1))"
      by (simp add: lookup_index_def Let_def)
  qed
  from 1 2 3 4 show ?thesis by blast
qed

theorem emitter_rule_witness:
  "parse ''c example\<newline>p cnf 3 3\<newline>1 -2 0\<newline>0\<newline>3 3 -1 0\<newline>'' =
     Inr \<lparr>max_var = 3, num_clauses = 3, clauses = [[1, - 2, 0], [0], [3, 3, - 1, 0]]\<rparr> \<and>
   (0 :: nat) < 3 \<and>
   source_clause opts_window
     \<lparr>max_var = 3, num_clauses = 3, clauses = [[1, - 2, 0], [0], [3, 3, - 1, 0]]\<rparr>
     (fst (scramble opts_window
        \<lparr>max_var = 3, num_clauses = 3, clauses = [[1, - 2, 0], [0], [3, 3, - 1, 0]]\<rparr> 0)) 0 =
     Inr 2 \<and>
   print_literals opts_window 3
     (fst (scramble opts_window
        \<lparr>max_var = 3, num_clauses = 3, clauses = [[1, - 2, 0], [0], [3, 3, - 1, 0]]\<rparr> 0))
     [3, 3, - 1, 0] = Inr [- 1, - 1, 2]"
proof -
  have i: "(0 :: nat) < num_clauses
      \<lparr>max_var = 3, num_clauses = 3, clauses = [[1, - 2, 0], [0], [3, 3, - 1, 0]]\<rparr>" by simp
  from emitter_rule [OF example_parse i, of opts_window 0]
  have "source_clause opts_window
     \<lparr>max_var = 3, num_clauses = 3, clauses = [[1, - 2, 0], [0], [3, 3, - 1, 0]]\<rparr>
     (fst (scramble opts_window
        \<lparr>max_var = 3, num_clauses = 3, clauses = [[1, - 2, 0], [0], [3, 3, - 1, 0]]\<rparr> 0)) 0 =
     Inr (nat (source_index opts_window 3 (fst (scramble opts_window
        \<lparr>max_var = 3, num_clauses = 3, clauses = [[1, - 2, 0], [0], [3, 3, - 1, 0]]\<rparr> 0)) 0))"
    by simp
  then have a: "source_clause opts_window
     \<lparr>max_var = 3, num_clauses = 3, clauses = [[1, - 2, 0], [0], [3, 3, - 1, 0]]\<rparr>
     (fst (scramble opts_window
        \<lparr>max_var = 3, num_clauses = 3, clauses = [[1, - 2, 0], [0], [3, 3, - 1, 0]]\<rparr> 0)) 0 =
     Inr 2"
    unfolding example_scramble_window by (simp add: source_index_def opts_window_def)
  have b: "print_literals opts_window 3
     \<lparr>flipped = [True, False, True], clause_map = [0, 2, 1], variable_map = [0, 2, 1]\<rparr>
     [3, 3, - 1, 0] = Inr [- 1, - 1, 2]"
    by (simp add: print_eval opts_window_def)
  from example_parse a b show ?thesis
    unfolding example_scramble_window by simp
qed

text \<open>
  The sign rule as the claim words it (the original sign XORed with the flip decision and
  XORed again if the original literal was negative) cancels the original sign: for the
  input below, with no flip, it makes the literal \<open>-1\<close> positive, while \<^verbatim>\<open>print\<close> writes
  \<open>-1\<close>.
\<close>

theorem spec_sign_rule_counterexample:
  "parse ''p cnf 1 1\<newline>-1 0\<newline>'' =
     Inr \<lparr>max_var = 1, num_clauses = 1, clauses = [[- 1, 0]]\<rparr> \<and>
   fst (scramble opts_identity \<lparr>max_var = 1, num_clauses = 1, clauses = [[- 1, 0]]\<rparr> 0) =
     \<lparr>flipped = [False], clause_map = [0], variable_map = [0]\<rparr> \<and>
   print_literal opts_identity 1
     \<lparr>flipped = [False], clause_map = [0], variable_map = [0]\<rparr> (- 1) = Inr (- 1) \<and>
   main (\<lambda>opts. []) opts_identity ''p cnf 1 1\<newline>-1 0\<newline>'' 0 = Inr ''p cnf 1 1\<newline>-1 0\<newline>'' \<and>
   spec_sign_negative (- 1) ([False] ! 0) = False"
proof -
  have p: "parse ''p cnf 1 1\<newline>-1 0\<newline>'' =
     Inr \<lparr>max_var = 1, num_clauses = 1, clauses = [[- 1, 0]]\<rparr>"
    by (simp add: parse_eval)
  have s: "fst (scramble opts_identity \<lparr>max_var = 1, num_clauses = 1, clauses = [[- 1, 0]]\<rparr> 0) =
     \<lparr>flipped = [False], clause_map = [0], variable_map = [0]\<rparr>"
    by (simp add: scramble_eval)
  have l: "print_literal opts_identity 1
     \<lparr>flipped = [False], clause_map = [0], variable_map = [0]\<rparr> (- 1) = Inr (- 1)"
    by (simp add: print_eval opts_identity_def)
  have "main (\<lambda>opts. []) opts_identity ''p cnf 1 1\<newline>-1 0\<newline>'' 0 = Inr ''p cnf 1 1\<newline>-1 0\<newline>''"
    unfolding main_def p sum.case s
    by (simp add: print_eval opts_identity_def decimal.simps digit_char_def newline_def)
  with p s l show ?thesis by (simp add: spec_sign_negative_def)
qed

subsection \<open>Empty clauses\<close>

text \<open>
  Claim C10. When the clause loop of \<^verbatim>\<open>parse\<close> reads the token \<open>0\<close> with an empty
  literal stack, it stores a clause with no literal (the array holding the sentinel only)
  and goes on; \<^verbatim>\<open>print\<close> writes such a clause, under every option setting and all maps,
  as the line \<^verbatim>\<open>0\<close>; and in a whole run on an accepted input, the lines that consist of
  the terminating \<open>0\<close> only are exactly the lines written from the empty clauses, one line
  for each of them (the map from lines to clauses is a bijection).
\<close>

theorem empty_clause_preserved:
  "(\<not> space ch \<and> ch \<noteq> None \<and> ch \<noteq> Some CHR ''c'' \<and>
      literal mv sp nc ch inp lineno = Inr (0, ch', inp', lineno') \<longrightarrow>
      body mv sp ch inp lineno [] nc cls =
        body mv sp ch' inp' lineno' [] (nc + 1) (cls @ [[0]])) \<and>
   print_literals opts mv' m [0] = Inr [] \<and>
   line_text [] = ''0\<newline>'' \<and>
   (parse input = Inr f \<longrightarrow>
      (\<exists>lines. print_clauses opts f (fst (scramble opts f X)) [0..<num_clauses f] = Inr lines \<and>
         length lines = num_clauses f \<and>
         bij_betw (\<lambda>i. nat (source_index opts (num_clauses f) (fst (scramble opts f X)) i))
           {0..<num_clauses f} {0..<num_clauses f} \<and>
         list_all (\<lambda>i.
             (clauses f ! nat (source_index opts (num_clauses f) (fst (scramble opts f X)) i) = [0]) =
               (line_text (lines ! i) = ''0\<newline>'') \<and>
             (clauses f ! nat (source_index opts (num_clauses f) (fst (scramble opts f X)) i) = [0]) =
               (lines ! i = []))
           [0..<num_clauses f]))"
proof -
  have 1: "\<not> space ch \<and> ch \<noteq> None \<and> ch \<noteq> Some CHR ''c'' \<and>
      literal mv sp nc ch inp lineno = Inr (0, ch', inp', lineno') \<longrightarrow>
      body mv sp ch inp lineno [] nc cls =
        body mv sp ch' inp' lineno' [] (nc + 1) (cls @ [[0]])"
    by (simp add: body_literal)
  have 2: "print_literals opts mv' m [0] = Inr []" by simp
  have 3: "line_text [] = ''0\<newline>''" by (simp add: line_text_def newline_def)
  have t: "(line_text ds = ''0\<newline>'') = (ds = [])" for ds
  proof (cases ds)
    case Nil
    with 3 show ?thesis by simp
  next
    case (Cons d ds')
    have "printf_d d \<noteq> []" by (simp add: printf_d_def decimal.simps [of "nat d"])
    then obtain c cs where p: "printf_d d = c # cs" by (cases "printf_d d") auto
    have "length (line_text ds) \<ge> 4"
      by (simp add: line_text_def Cons p)
    then have "line_text ds \<noteq> ''0\<newline>''" by auto
    with Cons show ?thesis by simp
  qed
  have 4: "parse input = Inr f \<longrightarrow>
      (\<exists>lines. print_clauses opts f (fst (scramble opts f X)) [0..<num_clauses f] = Inr lines \<and>
         length lines = num_clauses f \<and>
         bij_betw (\<lambda>i. nat (source_index opts (num_clauses f) (fst (scramble opts f X)) i))
           {0..<num_clauses f} {0..<num_clauses f} \<and>
         list_all (\<lambda>i.
             (clauses f ! nat (source_index opts (num_clauses f) (fst (scramble opts f X)) i) = [0]) =
               (line_text (lines ! i) = ''0\<newline>'') \<and>
             (clauses f ! nat (source_index opts (num_clauses f) (fst (scramble opts f X)) i) = [0]) =
               (lines ! i = []))
           [0..<num_clauses f])"
  proof
    assume p: "parse input = Inr f"
    let ?m = "fst (scramble opts f X)"
    let ?s = "\<lambda>i. nat (source_index opts (num_clauses f) ?m i)"
    let ?lines = "map (\<lambda>i. map (emitted_literal opts (max_var f) ?m) (butlast (clauses f ! ?s i)))
      [0..<num_clauses f]"
    note f = parse_valid [OF p]
    note m = scramble_valid [of f opts X]
    have a: "print_clauses opts f ?m [0..<num_clauses f] = Inr ?lines"
      by (rule parsed_run_lines [OF p])
    have b: "length ?lines = num_clauses f" by simp
    have c: "bij_betw ?s {0..<num_clauses f} {0..<num_clauses f}"
      by (rule source_index_bij [OF m])
    have d: "list_all (\<lambda>i.
             (clauses f ! ?s i = [0]) = (line_text (?lines ! i) = ''0\<newline>'') \<and>
             (clauses f ! ?s i = [0]) = (?lines ! i = [])) [0..<num_clauses f]"
      unfolding list_all_iff
    proof
      fix i assume "i \<in> set [0..<num_clauses f]"
      then have i: "i < num_clauses f" by simp
      from valid_clause_split [OF selected_clause_valid [OF f m i, of opts]]
      have s: "clauses f ! ?s i = butlast (clauses f ! ?s i) @ [0]" by simp
      have "(clauses f ! ?s i = [0]) = (butlast (clauses f ! ?s i) = [])"
        by (subst s) simp
      also have "\<dots> = (?lines ! i = [])" using i by simp
      finally have e: "(clauses f ! ?s i = [0]) = (?lines ! i = [])" .
      with t [of "?lines ! i"]
      show "(clauses f ! ?s i = [0]) = (line_text (?lines ! i) = ''0\<newline>'') \<and>
             (clauses f ! ?s i = [0]) = (?lines ! i = [])"
        by simp
    qed
    from a b c d
    show "\<exists>lines. print_clauses opts f ?m [0..<num_clauses f] = Inr lines \<and>
         length lines = num_clauses f \<and>
         bij_betw ?s {0..<num_clauses f} {0..<num_clauses f} \<and>
         list_all (\<lambda>i.
             (clauses f ! ?s i = [0]) = (line_text (lines ! i) = ''0\<newline>'') \<and>
             (clauses f ! ?s i = [0]) = (lines ! i = []))
           [0..<num_clauses f]"
      by blast
  qed
  from 1 2 3 4 show ?thesis by blast
qed

theorem empty_clause_preserved_witness:
  "parse ''p cnf 0 1\<newline>0\<newline>'' = Inr \<lparr>max_var = 0, num_clauses = 1, clauses = [[0]]\<rparr> \<and>
   literal 0 1 0 (Some CHR ''0'') ''\<newline>'' 2 = Inr (0, Some CHR 0x0A, [], 3) \<and>
   body 0 1 (Some CHR ''0'') ''\<newline>'' 2 [] 0 [] = body 0 1 (Some CHR 0x0A) [] 3 [] 1 [[0]] \<and>
   body 0 1 (Some CHR ''0'') ''\<newline>'' 2 [] 0 [] = Inr (1, [[0]]) \<and>
   main (\<lambda>opts. []) opts_permute ''p cnf 0 1\<newline>0\<newline>'' 0 = Inr ''p cnf 0 1\<newline>0\<newline>'' \<and>
   (\<exists>lines. print_clauses opts_permute \<lparr>max_var = 0, num_clauses = 1, clauses = [[0]]\<rparr>
        (fst (scramble opts_permute \<lparr>max_var = 0, num_clauses = 1, clauses = [[0]]\<rparr> 0)) [0..<1] =
        Inr lines \<and> length lines = 1)"
proof -
  note t = empty_clause_preserved [where ch = "Some CHR ''0''" and mv = 0 and sp = 1 and nc = 0
      and inp = "''\<newline>''" and lineno = 2 and ch' = "Some CHR 0x0A" and inp' = "[]"
      and lineno' = 3 and cls = "[]" and opts = opts_permute
      and input = "''p cnf 0 1\<newline>0\<newline>''"
      and f = "\<lparr>max_var = 0, num_clauses = 1, clauses = [[0]]\<rparr>" and X = 0]
  have p: "parse ''p cnf 0 1\<newline>0\<newline>'' = Inr \<lparr>max_var = 0, num_clauses = 1, clauses = [[0]]\<rparr>"
    by (simp add: parse_eval)
  have l: "literal 0 1 0 (Some CHR ''0'') ''\<newline>'' 2 = Inr (0, Some CHR 0x0A, [], 3)"
    by (simp add: parse_eval)
  have h: "\<not> space (Some CHR ''0'') \<and> Some CHR ''0'' \<noteq> None \<and> Some CHR ''0'' \<noteq> Some CHR ''c''"
    by (simp add: space_def newline_def)
  from t h l have b: "body 0 1 (Some CHR ''0'') ''\<newline>'' 2 [] 0 [] =
      body 0 1 (Some CHR 0x0A) [] 3 [] 1 [[0]]"
    by simp
  have b': "body 0 1 (Some CHR ''0'') ''\<newline>'' 2 [] 0 [] = Inr (1, [[0]])"
    by (simp add: parse_eval)
  from t p have e: "\<exists>lines. print_clauses opts_permute \<lparr>max_var = 0, num_clauses = 1, clauses = [[0]]\<rparr>
        (fst (scramble opts_permute \<lparr>max_var = 0, num_clauses = 1, clauses = [[0]]\<rparr> 0)) [0..<1] =
        Inr lines \<and> length lines = 1"
    by auto
  have s: "fst (scramble opts_permute \<lparr>max_var = 0, num_clauses = 1, clauses = [[0]]\<rparr> 0) =
      \<lparr>flipped = [], clause_map = [0], variable_map = []\<rparr>"
    by (simp add: scramble_eval)
  have o: "main (\<lambda>opts. []) opts_permute ''p cnf 0 1\<newline>0\<newline>'' 0 = Inr ''p cnf 0 1\<newline>0\<newline>''"
    unfolding main_def p sum.case s
    by (simp add: print_eval opts_permute_def decimal.simps digit_char_def newline_def)
  from p l b b' o e show ?thesis by blast
qed

end
